theory Spec2Isabelle
  imports Complex_Main "HOL-Library.AList"
begin

section \<open>Strings and key normalisation\<close>

text \<open>
  Python strings are sequences of code points. A HOL character stands for the code point
  of the same number, so the strings of this development are the Python strings over the
  code points 0 to 255. On these, \<^verbatim>\<open>str.strip()\<close> removes the characters for which
  \<^verbatim>\<open>str.isspace\<close> holds (tab to carriage return, the four separators 28 to 31, the
  space, NEL and the no-break space), and \<^verbatim>\<open>str.lower()\<close> moves the capital letters
  A to Z and the capital letters 192 to 222 (the multiplication sign 215 apart) up by 32.
\<close>

definition is_space :: "char \<Rightarrow> bool" where
  "is_space c =
     (let n = (of_char c :: nat)
      in (9 \<le> n \<and> n \<le> 13) \<or> (28 \<le> n \<and> n \<le> 32) \<or> n = 133 \<or> n = 160)"

definition lower_char :: "char \<Rightarrow> char" where
  "lower_char c =
     (let n = (of_char c :: nat)
      in if (65 \<le> n \<and> n \<le> 90) \<or> (192 \<le> n \<and> n \<le> 222 \<and> n \<noteq> 215)
         then char_of (n + 32) else c)"

definition lower :: "string \<Rightarrow> string" where
  "lower s = map lower_char s"

definition strip :: "string \<Rightarrow> string" where
  "strip s = rev (dropWhile is_space (rev (dropWhile is_space s)))"

text \<open>\<^verbatim>\<open>CorrelationEngine._normalize_key\<close>: \<^verbatim>\<open>value.lower().strip()\<close>.\<close>

definition normalize_key :: "string \<Rightarrow> string" where
  "normalize_key v = strip (lower v)"


section \<open>The importance table of the parser\<close>

text \<open>
  An entity observation is a Python dict. The engine reads its keys \<^verbatim>\<open>value\<close>,
  \<^verbatim>\<open>type\<close> and \<^verbatim>\<open>importance_score\<close>; a key that is absent is \<open>None\<close> here,
  and a key that is present holds a string (a number for the score). The other keys of an
  observation (source, offsets, method) are carried along unread and are left out.
\<close>

record observation =
  ob_value :: "string option"
  ob_type :: "string option"
  ob_importance_score :: "real option"

text \<open>\<^verbatim>\<open>'HASH' in entity_type\<close>: the substring test.\<close>

fun contains :: "string \<Rightarrow> string \<Rightarrow> bool" where
  "contains sub [] = (sub = [])"
| "contains sub (c # cs) = (take (length sub) (c # cs) = sub \<or> contains sub cs)"

text \<open>\<^verbatim>\<open>AIParser.score_entity_importance\<close>, the static table with its 0.5 fallback.\<close>

definition score_entity_importance :: "observation \<Rightarrow> real" where
  "score_entity_importance entity =
     (let entity_type = (case ob_type entity of None \<Rightarrow> [] | Some t \<Rightarrow> t)
      in if entity_type \<in> set [''CTF_FLAG'', ''API_KEY'', ''CREDENTIAL''] then 1
         else if entity_type \<in> set [''IP_ADDRESS'', ''URL'', ''FILE_PATH'', ''EMAIL''] then 4 / 5
         else if entity_type \<in> set [''PERSON'', ''ORG'', ''GPE''] then 3 / 5
         else if contains ''HASH'' entity_type then 3 / 4
         else 1 / 2)"

section \<open>The correlation engine\<close>

text \<open>
  The values of \<^verbatim>\<open>correlation_map\<close> are dicts of two shapes. The default factory of the
  defaultdict makes an entity record (\<^verbatim>\<open>type\<close>, \<^verbatim>\<open>sources\<close>, \<^verbatim>\<open>linked_entities\<close>,
  \<^verbatim>\<open>metadata\<close>, \<^verbatim>\<open>importance\<close>, later \<^verbatim>\<open>occurrences\<close> and \<^verbatim>\<open>final_score\<close>);
  \<^verbatim>\<open>add_raw_data\<close> makes the corpus record (\<^verbatim>\<open>type\<close>, \<^verbatim>\<open>sources\<close>, \<^verbatim>\<open>data\<close>).
  Reading a key that a shape does not have raises KeyError. The \<^verbatim>\<open>metadata\<close> dict is
  never read or written and is left out. Scores are Python floats; they are modelled as
  reals, so the rounding of the float operations is not part of the model.
\<close>

datatype error = KeyError string

record entity_record =
  er_type :: "string option"
  er_sources :: "string set"
  er_linked_entities :: "string set"
  er_importance :: real
  er_occurrences :: "observation list option"
  er_final_score :: "real option"

record corpus_record =
  cr_type :: "string option"
  cr_sources :: "string set"
  cr_data :: "(string \<times> string) list"

datatype entry = Entity entity_record | Corpus corpus_record

text \<open>
  One relationship dict. Its \<^verbatim>\<open>sources\<close> entry is \<^verbatim>\<open>list(common_sources)\<close>, a list in
  the iteration order of a Python set; the model keeps the set.
\<close>

record relationship =
  rel_entity1 :: string
  rel_entity2 :: string
  rel_kind :: string
  rel_sources :: "string set"
  strength :: nat

text \<open>
  The engine. Python dicts keep insertion order, and the order of the keys decides the
  order of every list the engine returns, so \<^verbatim>\<open>correlation_map\<close> is an association
  list: \<open>AList.update\<close> overwrites the value of a key in place and puts a new key last.
\<close>

record engine =
  correlation_map :: "(string \<times> entry) list"
  relationships :: "relationship list"

definition init :: engine where
  "init = \<lparr>correlation_map = [], relationships = []\<rparr>"

definition default_entry :: entry where
  "default_entry =
     Entity \<lparr>er_type = None, er_sources = {}, er_linked_entities = {}, er_importance = 0,
             er_occurrences = None, er_final_score = None\<rparr>"

text \<open>
  \<^verbatim>\<open>self.correlation_map[k]\<close> on the defaultdict: a missing key is first stored with the
  default record (\<open>touch\<close>), then the value of the key is read (\<open>item\<close>).
\<close>

definition touch :: "string \<Rightarrow> (string \<times> entry) list \<Rightarrow> (string \<times> entry) list" where
  "touch k m = (case map_of m k of None \<Rightarrow> m @ [(k, default_entry)] | Some _ \<Rightarrow> m)"

definition item :: "(string \<times> entry) list \<Rightarrow> string \<Rightarrow> entry" where
  "item m k = (case map_of m k of None \<Rightarrow> default_entry | Some v \<Rightarrow> v)"

fun sources_of :: "entry \<Rightarrow> string set" where
  "sources_of (Entity r) = er_sources r"
| "sources_of (Corpus c) = cr_sources c"

fun type_of :: "entry \<Rightarrow> string option" where
  "type_of (Entity r) = er_type r"
| "type_of (Corpus c) = cr_type c"

text \<open>
  A call either returns, with the engine as it is then (\<open>Inr\<close>), or raises, with the
  engine as the exception leaves it (\<open>Inl\<close>): what was mutated before the raise stays.
\<close>

type_synonym 'a outcome = "(error \<times> engine) + 'a"

text \<open>\<^verbatim>\<open>add_raw_data\<close>: the body of the loop, then the loop over \<^verbatim>\<open>raw_data.items()\<close>.\<close>

definition add_raw_item :: "string \<Rightarrow> string \<Rightarrow> engine \<Rightarrow> engine outcome" where
  "add_raw_item source content e =
     (let m = (if map_of (correlation_map e) ''raw_data'' = None
               then AList.update ''raw_data''
                      (Corpus \<lparr>cr_type = Some ''metadata'', cr_sources = {}, cr_data = []\<rparr>)
                      (correlation_map e)
               else correlation_map e)
      in case item m ''raw_data'' of
           Entity r \<Rightarrow> Inl (KeyError ''data'', e\<lparr>correlation_map := m\<rparr>)
         | Corpus c \<Rightarrow>
             Inr (e\<lparr>correlation_map :=
                      AList.update ''raw_data''
                        (Corpus (c\<lparr>cr_data := AList.update source content (cr_data c)\<rparr>)) m\<rparr>))"

fun add_raw_data :: "(string \<times> string) list \<Rightarrow> engine \<Rightarrow> engine outcome" where
  "add_raw_data [] e = Inr e"
| "add_raw_data ((source, content) # rest) e =
     (case add_raw_item source content e of
        Inl x \<Rightarrow> Inl x
      | Inr e' \<Rightarrow> add_raw_data rest e')"

text \<open>
  \<^verbatim>\<open>add_parsed_entities\<close>: the body of the inner loop for one entity of one source, the
  inner loop over the entities of a source, and the outer loop over
  \<^verbatim>\<open>parsed_entities.items()\<close>.
\<close>

definition add_entity :: "string \<Rightarrow> observation \<Rightarrow> engine \<Rightarrow> engine outcome" where
  "add_entity source entity e =
     (case ob_value entity of
        None \<Rightarrow> Inl (KeyError ''value'', e)
      | Some v \<Rightarrow>
          (case ob_type entity of
             None \<Rightarrow> Inl (KeyError ''type'', e)
           | Some entity_type \<Rightarrow>
               (let entity_key = normalize_key v;
                    m = touch entity_key (correlation_map e)
                in case item m entity_key of
                     Corpus c \<Rightarrow>
                       (let c1 = (if cr_type c = None then c\<lparr>cr_type := Some entity_type\<rparr> else c);
                            c2 = c1\<lparr>cr_sources := insert source (cr_sources c1)\<rparr>
                        in Inl (KeyError ''importance'',
                                e\<lparr>correlation_map := AList.update entity_key (Corpus c2) m\<rparr>))
                   | Entity r \<Rightarrow>
                       (let r1 = (if er_type r = None then r\<lparr>er_type := Some entity_type\<rparr> else r);
                            r2 = r1\<lparr>er_sources := insert source (er_sources r1)\<rparr>;
                            r3 = r2\<lparr>er_importance :=
                                      max (er_importance r2)
                                        (case ob_importance_score entity of
                                           None \<Rightarrow> 1 / 2
                                         | Some h \<Rightarrow> h)\<rparr>;
                            r4 = r3\<lparr>er_occurrences :=
                                      Some ((case er_occurrences r3 of None \<Rightarrow> [] | Some os \<Rightarrow> os)
                                            @ [entity])\<rparr>
                        in Inr (e\<lparr>correlation_map := AList.update entity_key (Entity r4) m\<rparr>)))))"

fun add_entities :: "string \<Rightarrow> observation list \<Rightarrow> engine \<Rightarrow> engine outcome" where
  "add_entities source [] e = Inr e"
| "add_entities source (entity # rest) e =
     (case add_entity source entity e of
        Inl x \<Rightarrow> Inl x
      | Inr e' \<Rightarrow> add_entities source rest e')"

fun add_parsed_entities :: "(string \<times> observation list) list \<Rightarrow> engine \<Rightarrow> engine outcome" where
  "add_parsed_entities [] e = Inr e"
| "add_parsed_entities ((source, ents) # rest) e =
     (case add_entities source ents e of
        Inl x \<Rightarrow> Inl x
      | Inr e' \<Rightarrow> add_parsed_entities rest e')"

text \<open>
  \<^verbatim>\<open>entities = [k for k in self.correlation_map.keys() if k != 'raw_data']\<close>, the list
  that \<^verbatim>\<open>_find_entity_links\<close> and \<^verbatim>\<open>correlate\<close> both build.
\<close>

definition entities :: "engine \<Rightarrow> string list" where
  "entities e = filter (\<lambda>k. k \<noteq> ''raw_data'') (map fst (correlation_map e))"

text \<open>\<^verbatim>\<open>_find_entity_links\<close>: the body of the inner loop for one pair, and the two loops.\<close>

definition link_pair :: "string \<Rightarrow> string \<Rightarrow> engine \<Rightarrow> engine outcome" where
  "link_pair entity1 entity2 e =
     (let m = touch entity2 (touch entity1 (correlation_map e));
          sources1 = sources_of (item m entity1);
          sources2 = sources_of (item m entity2);
          common_sources = sources1 \<inter> sources2
      in if common_sources = {} then Inr (e\<lparr>correlation_map := m\<rparr>)
         else
           (case item m entity1 of
              Corpus c \<Rightarrow> Inl (KeyError ''linked_entities'', e\<lparr>correlation_map := m\<rparr>)
            | Entity r1 \<Rightarrow>
                (let m1 = AList.update entity1
                            (Entity (r1\<lparr>er_linked_entities :=
                                           insert entity2 (er_linked_entities r1)\<rparr>)) m
                 in case item m1 entity2 of
                      Corpus c \<Rightarrow> Inl (KeyError ''linked_entities'', e\<lparr>correlation_map := m1\<rparr>)
                    | Entity r2 \<Rightarrow>
                        Inr (e\<lparr>correlation_map :=
                                 AList.update entity2
                                   (Entity (r2\<lparr>er_linked_entities :=
                                                  insert entity1 (er_linked_entities r2)\<rparr>)) m1,
                               relationships :=
                                 relationships e @
                                 [\<lparr>rel_entity1 = entity1, rel_entity2 = entity2,
                                   rel_kind = ''co_occurrence'',
                                   rel_sources = common_sources,
                                   strength = card common_sources\<rparr>]\<rparr>))))"

fun link_inner :: "string \<Rightarrow> string list \<Rightarrow> engine \<Rightarrow> engine outcome" where
  "link_inner entity1 [] e = Inr e"
| "link_inner entity1 (entity2 # rest) e =
     (case link_pair entity1 entity2 e of
        Inl x \<Rightarrow> Inl x
      | Inr e' \<Rightarrow> link_inner entity1 rest e')"

fun link_outer :: "string list \<Rightarrow> engine \<Rightarrow> engine outcome" where
  "link_outer [] e = Inr e"
| "link_outer (entity1 # rest) e =
     (case link_inner entity1 rest e of
        Inl x \<Rightarrow> Inl x
      | Inr e' \<Rightarrow> link_outer rest e')"

definition find_entity_links :: "engine \<Rightarrow> engine outcome" where
  "find_entity_links e = link_outer (entities e) e"

text \<open>\<^verbatim>\<open>_calculate_entity_scores\<close>: the score of one record, and the loop over the keys.\<close>

definition score_entry :: "entity_record \<Rightarrow> entity_record" where
  "score_entry entity_data =
     (let base_score = er_importance entity_data;
          source_boost = min (real (card (er_sources entity_data)) * (1 / 10)) (3 / 10);
          link_boost = min (real (card (er_linked_entities entity_data)) * (1 / 20)) (1 / 5);
          final_score = min (base_score + source_boost + link_boost) 1
      in entity_data\<lparr>er_final_score := Some final_score\<rparr>)"

fun score_loop :: "string list \<Rightarrow> engine \<Rightarrow> engine outcome" where
  "score_loop [] e = Inr e"
| "score_loop (entity_key # rest) e =
     (if entity_key = ''raw_data'' then score_loop rest e
      else
        (case item (correlation_map e) entity_key of
           Corpus c \<Rightarrow> Inl (KeyError ''importance'', e)
         | Entity entity_data \<Rightarrow>
             score_loop rest
               (e\<lparr>correlation_map :=
                    AList.update entity_key (Entity (score_entry entity_data))
                      (correlation_map e)\<rparr>)))"

definition calculate_entity_scores :: "engine \<Rightarrow> engine outcome" where
  "calculate_entity_scores e = score_loop (map fst (correlation_map e)) e"

text \<open>
  The dict that \<^verbatim>\<open>correlate\<close> returns. Its key lists are new lists. Its
  \<^verbatim>\<open>relationships\<close> entry is the engine's own list object, not a copy;
  \<open>res_relationships\<close> is what that list holds when the call returns.
\<close>

record correlation_result =
  total_entities :: nat
  linked_count :: nat
  high_value_count :: nat
  ctf_flags :: "string list"
  api_keys :: "string list"
  credentials :: "string list"
  res_relationships :: "relationship list"
  high_value_entities :: "string list"

text \<open>\<^verbatim>\<open>.get('final_score', 0)\<close>, which no shape fails on.\<close>

fun final_score_or_0 :: "entry \<Rightarrow> real" where
  "final_score_or_0 (Entity r) = (case er_final_score r of None \<Rightarrow> 0 | Some s \<Rightarrow> s)"
| "final_score_or_0 (Corpus c) = 0"

text \<open>The generator of \<^verbatim>\<open>linked_count\<close>, which reads \<^verbatim>\<open>linked_entities\<close> of every key.\<close>

fun count_linked :: "(string \<times> entry) list \<Rightarrow> string list \<Rightarrow> error + nat" where
  "count_linked m [] = Inr 0"
| "count_linked m (k # ks) =
     (case item m k of
        Corpus c \<Rightarrow> Inl (KeyError ''linked_entities'')
      | Entity r \<Rightarrow>
          (case count_linked m ks of
             Inl x \<Rightarrow> Inl x
           | Inr n \<Rightarrow> Inr ((if 0 < card (er_linked_entities r) then 1 else 0) + n)))"

definition compile_result :: "engine \<Rightarrow> (correlation_result \<times> engine) outcome" where
  "compile_result e =
     (let m = correlation_map e;
          high_value = filter (\<lambda>k. 4 / 5 \<le> final_score_or_0 (item m k)) (entities e);
          flags = filter (\<lambda>k. type_of (item m k) = Some ''CTF_FLAG'') (entities e);
          keys = filter (\<lambda>k. type_of (item m k) = Some ''API_KEY'') (entities e);
          creds = filter (\<lambda>k. type_of (item m k) = Some ''CREDENTIAL'') (entities e)
      in case count_linked m (entities e) of
           Inl x \<Rightarrow> Inl (x, e)
         | Inr linked \<Rightarrow>
             Inr (\<lparr>total_entities = length (entities e),
                   linked_count = linked,
                   high_value_count = length high_value,
                   ctf_flags = flags,
                   api_keys = keys,
                   credentials = creds,
                   res_relationships = relationships e,
                   high_value_entities = high_value\<rparr>, e))"

text \<open>\<^verbatim>\<open>correlate\<close>.\<close>

definition correlate :: "engine \<Rightarrow> (correlation_result \<times> engine) outcome" where
  "correlate e =
     (case find_entity_links e of
        Inl x \<Rightarrow> Inl x
      | Inr e1 \<Rightarrow>
          (case calculate_entity_scores e1 of
             Inl x \<Rightarrow> Inl x
           | Inr e2 \<Rightarrow> compile_result e2))"

text \<open>
  What a dict returned by \<^verbatim>\<open>correlate\<close> shows when it is read later, the engine being in
  state \<open>e\<close> by then: its \<^verbatim>\<open>relationships\<close> entry is the engine's list as it is in \<open>e\<close>.
\<close>

definition read_later :: "correlation_result \<Rightarrow> engine \<Rightarrow> correlation_result" where
  "read_later r e = r\<lparr>res_relationships := relationships e\<rparr>"

text \<open>
  \<^verbatim>\<open>get_entity_details\<close>: \<^verbatim>\<open>self.correlation_map.get(normalized_key)\<close>. The method
  \<^verbatim>\<open>get\<close> does not call the default factory, so the engine is returned as it was.
\<close>

definition get_entity_details :: "engine \<Rightarrow> string \<Rightarrow> entry option \<times> engine" where
  "get_entity_details e entity_key =
     (let normalized_key = normalize_key entity_key
      in (map_of (correlation_map e) normalized_key, e))"

section \<open>Histories\<close>

text \<open>
  A history is the list of calls made on one engine since its construction. A caller that
  catches an exception goes on with the engine as the exception left it.
\<close>

datatype call =
    Add_raw_data "(string \<times> string) list"
  | Add_parsed_entities "(string \<times> observation list) list"
  | Correlate
  | Get_entity_details string

fun engine_after :: "engine outcome \<Rightarrow> engine" where
  "engine_after (Inl (x, e)) = e"
| "engine_after (Inr e) = e"

fun step :: "call \<Rightarrow> engine \<Rightarrow> engine" where
  "step (Add_raw_data raw_data) e = engine_after (add_raw_data raw_data e)"
| "step (Add_parsed_entities parsed_entities) e = engine_after (add_parsed_entities parsed_entities e)"
| "step Correlate e = (case correlate e of Inl (x, e') \<Rightarrow> e' | Inr (r, e') \<Rightarrow> e')"
| "step (Get_entity_details k) e = snd (get_entity_details e k)"

fun run :: "call list \<Rightarrow> engine \<Rightarrow> engine" where
  "run [] e = e"
| "run (c # cs) e = run cs (step c e)"

section \<open>Views of the engine state used in the proofs\<close>

fun is_entity :: "entry \<Rightarrow> bool" where
  "is_entity (Entity r) = True"
| "is_entity (Corpus c) = False"

fun linked_of :: "entry \<Rightarrow> string set" where
  "linked_of (Entity r) = er_linked_entities r"
| "linked_of (Corpus c) = {}"

definition sources :: "engine \<Rightarrow> string \<Rightarrow> string set" where
  "sources e k = sources_of (item (correlation_map e) k)"

definition linked_entities :: "engine \<Rightarrow> string \<Rightarrow> string set" where
  "linked_entities e k = linked_of (item (correlation_map e) k)"

text \<open>An entry with its links and its final score blanked: what the linking and scoring leave alone.\<close>

fun plain :: "entry \<Rightarrow> entry" where
  "plain (Entity r) = Entity (r\<lparr>er_linked_entities := {}, er_final_score := None\<rparr>)"
| "plain (Corpus c) = Corpus c"

text \<open>
  The invariant of the engine: the keys are distinct (it is a dict); every key but
  \<^verbatim>\<open>raw_data\<close> holds an entity record; importances are not negative; and a link
  recorded at a key points to another entity key that shares a source with it.
\<close>

definition engine_inv :: "engine \<Rightarrow> bool" where
  "engine_inv e =
     (distinct (map fst (correlation_map e)) \<and>
      (\<forall>k\<in>set (map fst (correlation_map e)).
         (k \<noteq> ''raw_data'' \<longrightarrow> is_entity (item (correlation_map e) k)) \<and>
         (\<forall>r. item (correlation_map e) k = Entity r \<longrightarrow>
            0 \<le> er_importance r \<and>
            (\<forall>b\<in>er_linked_entities r.
               k \<noteq> ''raw_data'' \<and> b \<noteq> ''raw_data'' \<and> b \<noteq> k \<and>
               b \<in> set (map fst (correlation_map e)) \<and>
               sources e k \<inter> sources e b \<noteq> {}))))"

text \<open>The linking and the scoring keep the keys and the plain entries, and links only grow.\<close>

definition same_frame :: "engine \<Rightarrow> engine \<Rightarrow> bool" where
  "same_frame e e' =
     (map fst (correlation_map e') = map fst (correlation_map e) \<and>
      (\<forall>k. plain (item (correlation_map e') k) = plain (item (correlation_map e) k) \<and>
           linked_entities e k \<subseteq> linked_entities e' k))"

text \<open>
  The relationship dicts one linking pass appends for the key list \<open>ks\<close>: one for each
  pair of a key and a later key that have a source in common, in the order of the loops.
\<close>

definition new_relationship :: "engine \<Rightarrow> string \<Rightarrow> string \<Rightarrow> relationship" where
  "new_relationship e a b =
     \<lparr>rel_entity1 = a, rel_entity2 = b, rel_kind = ''co_occurrence'',
      rel_sources = sources e a \<inter> sources e b,
      strength = card (sources e a \<inter> sources e b)\<rparr>"

fun emitted :: "engine \<Rightarrow> string list \<Rightarrow> relationship list" where
  "emitted e [] = []"
| "emitted e (a # ks) =
     map (new_relationship e a) (filter (\<lambda>b. sources e a \<inter> sources e b \<noteq> {}) ks)
     @ emitted e ks"

text \<open>What the scoring pass does to the entry of a key it visits.\<close>

fun rescored :: "entry \<Rightarrow> entry" where
  "rescored (Entity r) = Entity (score_entry r)"
| "rescored (Corpus c) = Corpus c"

text \<open>The score formula of the specification, on one entity record.\<close>

definition spec_score :: "entity_record \<Rightarrow> real" where
  "spec_score r =
     min 1 (er_importance r
            + min (1 / 10 * real (card (er_sources r))) (3 / 10)
            + min (1 / 20 * real (card (er_linked_entities r))) (1 / 5))"

text \<open>
  The keys a call can store in the map: the normalised value of every observation that has
  a value, and the reserved key \<^verbatim>\<open>raw_data\<close> for a call of \<^verbatim>\<open>add_raw_data\<close> with at
  least one source.
\<close>

fun observation_keys :: "observation list \<Rightarrow> string list" where
  "observation_keys [] = []"
| "observation_keys (entity # rest) =
     (case ob_value entity of
        None \<Rightarrow> observation_keys rest
      | Some v \<Rightarrow> normalize_key v # observation_keys rest)"

fun call_keys :: "call \<Rightarrow> string list" where
  "call_keys (Add_raw_data raw_data) = (if raw_data = [] then [] else [''raw_data''])"
| "call_keys (Add_parsed_entities parsed_entities) =
     concat (map (\<lambda>(source, ents). observation_keys ents) parsed_entities)"
| "call_keys Correlate = []"
| "call_keys (Get_entity_details k) = []"

definition history_keys :: "call list \<Rightarrow> string list" where
  "history_keys cs = concat (map call_keys cs)"

section \<open>Example histories\<close>

text \<open>Scenario B of the specification: a flag and an address found in one source.\<close>

definition scenario_b :: "call list" where
  "scenario_b =
     [Add_parsed_entities
        [(''source1'',
          [\<lparr>ob_value = Some ''CTF{demo}'', ob_type = Some ''CTF_FLAG'', ob_importance_score = None\<rparr>,
           \<lparr>ob_value = Some ''10.0.0.1'', ob_type = Some ''IP_ADDRESS'', ob_importance_score = None\<rparr>])]]"

text \<open>A batch of three observations from two sources whose values are blank.\<close>

definition blank_batch :: "(string \<times> observation list) list" where
  "blank_batch =
     [(''source1'',
       [\<lparr>ob_value = Some ''  '', ob_type = Some ''EMAIL'', ob_importance_score = None\<rparr>]),
      (''source2'',
       [\<lparr>ob_value = Some [], ob_type = Some ''PERSON'', ob_importance_score = None\<rparr>,
        \<lparr>ob_value = Some [CHR 0x09, CHR 0x20], ob_type = Some ''URL'',
          ob_importance_score = None\<rparr>])]"

text \<open>The relationship and the result of the first \<^verbatim>\<open>correlate\<close> in scenario B.\<close>

definition scenario_b_link :: relationship where
  "scenario_b_link =
     \<lparr>rel_entity1 = ''ctf{demo}'', rel_entity2 = ''10.0.0.1'', rel_kind = ''co_occurrence'',
      rel_sources = {''source1''}, strength = 1\<rparr>"

definition scenario_b_result :: correlation_result where
  "scenario_b_result =
     \<lparr>total_entities = 2, linked_count = 2, high_value_count = 0,
      ctf_flags = [''ctf{demo}''], api_keys = [], credentials = [],
      res_relationships = [scenario_b_link], high_value_entities = []\<rparr>"

text \<open>Some observations: two that are well formed, one with no type, one named like the corpus key.\<close>

definition admin_email :: observation where
  "admin_email =
     \<lparr>ob_value = Some ''admin@example.com'', ob_type = Some ''EMAIL'', ob_importance_score = None\<rparr>"

definition ip_address :: observation where
  "ip_address =
     \<lparr>ob_value = Some ''10.0.0.1'', ob_type = Some ''IP_ADDRESS'', ob_importance_score = None\<rparr>"

definition untyped :: observation where
  "untyped = \<lparr>ob_value = Some ''10.0.0.1'', ob_type = None, ob_importance_score = None\<rparr>"

definition raw_data_path :: observation where
  "raw_data_path =
     \<lparr>ob_value = Some ''raw_data'', ob_type = Some ''FILE_PATH'', ob_importance_score = None\<rparr>"

text \<open>The engine after \<^verbatim>\<open>add_raw_data({'nmap': 'scan output'})\<close> on a new engine.\<close>

definition corpus_engine :: engine where
  "corpus_engine =
     \<lparr>correlation_map =
        [(''raw_data'',
          Corpus \<lparr>cr_type = Some ''metadata'', cr_sources = {},
                  cr_data = [(''nmap'', ''scan output'')]\<rparr>)],
      relationships = []\<rparr>"

section \<open>Normalisation\<close>

lemma is_space_lower [simp]: "is_space (lower_char c) = is_space c"
  unfolding is_space_def lower_char_def Let_def
  by (auto simp: of_char_of)

lemma lower_char_idem [simp]: "lower_char (lower_char c) = lower_char c"
  unfolding lower_char_def Let_def
  by (auto simp: of_char_of)

lemma dropWhile_map_lower:
  "dropWhile is_space (map lower_char s) = map lower_char (dropWhile is_space s)"
  by (induction s) auto

lemma strip_lower: "strip (lower s) = lower (strip s)"
  by (simp add: strip_def lower_def dropWhile_map_lower rev_map dropWhile_map_lower[of "rev (dropWhile is_space s)" for s])

lemma dropWhile_blank: "\<forall>c\<in>set s. P c \<Longrightarrow> dropWhile P s = []"
  by (induction s) auto

lemma dropWhile_fixed: "xs = [] \<or> \<not> P (hd xs) \<Longrightarrow> dropWhile P xs = xs"
  by (cases xs) auto

lemma strip_ends: "strip s = [] \<or> (\<not> is_space (hd (strip s)) \<and> \<not> is_space (last (strip s)))"
proof (cases "strip s = []")
  case True then show ?thesis by simp
next
  case False
  let ?u = "dropWhile is_space s"
  let ?w = "dropWhile is_space (rev ?u)"
  have w: "?w \<noteq> []" using False by (simp add: strip_def)
  then have hw: "\<not> is_space (hd ?w)" by (rule hd_dropWhile)
  have "rev ?u = takeWhile is_space (rev ?u) @ ?w" by simp
  then have "last (rev ?u) = last ?w" using w by (metis last_appendR)
  moreover have u: "?u \<noteq> []"
  proof
    assume "?u = []"
    then have "?w = []" by (simp only: rev.simps dropWhile.simps)
    with w show False by simp
  qed
  ultimately have "last ?w = hd ?u" by (simp add: last_rev)
  moreover have "\<not> is_space (hd ?u)" using u by (rule hd_dropWhile)
  ultimately have lw: "\<not> is_space (last ?w)" by simp
  show ?thesis using w hw lw by (simp add: strip_def hd_rev last_rev)
qed

lemma strip_fixed: "s = [] \<or> (\<not> is_space (hd s) \<and> \<not> is_space (last s)) \<Longrightarrow> strip s = s"
proof -
  assume a: "s = [] \<or> (\<not> is_space (hd s) \<and> \<not> is_space (last s))"
  then have 1: "dropWhile is_space s = s" by (auto intro: dropWhile_fixed)
  from a have "rev s = [] \<or> \<not> is_space (hd (rev s))" by (auto simp: hd_rev)
  then have 2: "dropWhile is_space (rev s) = rev s" by (rule dropWhile_fixed)
  show ?thesis by (simp add: strip_def 1 2)
qed

lemma strip_idem: "strip (strip s) = strip s"
  using strip_ends[of s] by (intro strip_fixed) 

lemma lower_idem: "lower (lower s) = lower s"
  by (simp add: lower_def)

lemma normalize_idem: "normalize_key (normalize_key s) = normalize_key s"
  by (simp add: normalize_key_def strip_lower lower_idem strip_idem)

lemma dropWhile_all: "\<forall>c\<in>set l. P c \<Longrightarrow> dropWhile P (l @ s) = dropWhile P s"
  by (induction l) auto

lemma strip_left: "\<forall>c\<in>set l. is_space c \<Longrightarrow> strip (l @ s) = strip s"
  by (simp add: strip_def dropWhile_all)

lemma strip_right:
  assumes r: "\<forall>c\<in>set r. is_space c"
  shows "strip (s @ r) = strip s"
proof (cases "\<forall>c\<in>set s. is_space c")
  case True
  then have "dropWhile is_space s = []" by (rule dropWhile_blank)
  moreover from True r have "dropWhile is_space (s @ r) = []" by (intro dropWhile_blank) auto
  ultimately show ?thesis by (simp only: strip_def)
next
  case False
  then obtain x where "x \<in> set s" "\<not> is_space x" by blast
  then have "dropWhile is_space (s @ r) = dropWhile is_space s @ r"
    by (rule dropWhile_append1)
  moreover have "dropWhile is_space (rev r @ t) = dropWhile is_space t" for t
    using r by (intro dropWhile_all) simp
  ultimately show ?thesis by (simp add: strip_def)
qed

lemma strip_pad:
  "\<forall>c\<in>set l. is_space c \<Longrightarrow> \<forall>c\<in>set r. is_space c \<Longrightarrow> strip (l @ s @ r) = strip s"
  by (simp add: strip_left strip_right)

lemma normalize_pad:
  assumes "\<forall>c\<in>set l. is_space c" "\<forall>c\<in>set r. is_space c" "lower s = lower t"
  shows "normalize_key (l @ s @ r) = normalize_key t"
proof -
  have "normalize_key (l @ s @ r) = strip (lower l @ lower s @ lower r)"
    by (simp add: normalize_key_def lower_def)
  also have "\<dots> = strip (lower s)"
    using assms(1,2) by (intro strip_pad) (simp_all add: lower_def)
  finally show ?thesis using assms(3) by (simp add: normalize_key_def)
qed

lemma strip_blank: "\<forall>c\<in>set v. is_space c \<Longrightarrow> strip v = []"
  by (simp only: strip_def dropWhile_blank rev.simps dropWhile.simps)

lemma normalize_blank: "\<forall>c\<in>set v. is_space c \<Longrightarrow> normalize_key v = []"
  unfolding normalize_key_def strip_lower by (simp add: strip_blank lower_def)

lemma normalize_blank_iff: "normalize_key v = [] \<longleftrightarrow> (\<forall>c\<in>set v. is_space c)"
proof
  assume "normalize_key v = []"
  then have "lower (strip v) = []"
    by (simp only: normalize_key_def strip_lower)
  then have "dropWhile is_space (rev (dropWhile is_space v)) = []"
    by (simp only: strip_def lower_def map_is_Nil_conv rev_is_Nil_conv)
  then have "\<forall>c\<in>set (dropWhile is_space v). is_space c"
    by (simp only: dropWhile_eq_Nil_conv set_rev)
  then have "dropWhile is_space v = []"
    using hd_dropWhile[of is_space v] by (cases "dropWhile is_space v") auto
  then show "\<forall>c\<in>set v. is_space c" by (simp only: dropWhile_eq_Nil_conv)
qed (rule normalize_blank)


text \<open>
  C6. The key of a value is its lower-cased form with the leading and trailing white space
  removed; a value that is already in lower case with no white space at either end is its
  own key; normalising twice is normalising once; and two values that differ only in case
  and in white space around them have the same key, so a lookup by either finds the same
  record in every engine.
\<close>

theorem normalize_key_idempotent:
  "normalize_key v = strip (lower v)
   \<and> (lower v = v \<and> (v = [] \<or> (\<not> is_space (hd v) \<and> \<not> is_space (last v)))
        \<longrightarrow> normalize_key v = v)
   \<and> normalize_key (normalize_key s) = normalize_key s
   \<and> ((\<forall>c\<in>set l. is_space c) \<and> (\<forall>c\<in>set r. is_space c) \<and> lower a = lower b
        \<longrightarrow> normalize_key (l @ a @ r) = normalize_key b
            \<and> fst (get_entity_details e (l @ a @ r)) = fst (get_entity_details e b))"
proof -
  have "normalize_key (l @ a @ r) = normalize_key b
        \<and> fst (get_entity_details e (l @ a @ r)) = fst (get_entity_details e b)"
    if "\<forall>c\<in>set l. is_space c" "\<forall>c\<in>set r. is_space c" "lower a = lower b"
    using normalize_pad[OF that] by (simp add: get_entity_details_def)
  moreover have "normalize_key v = v"
    if "lower v = v" "v = [] \<or> (\<not> is_space (hd v) \<and> \<not> is_space (last v))"
    using that by (simp add: normalize_key_def strip_fixed)
  ultimately show ?thesis
    by (simp add: normalize_idem) (simp add: normalize_key_def)
qed

theorem normalize_key_idempotent_witness:
  "lower ''admin@example.com'' = ''admin@example.com''
   \<and> \<not> is_space (hd ''admin@example.com'') \<and> \<not> is_space (last ''admin@example.com'')
   \<and> normalize_key ''admin@example.com'' = ''admin@example.com''
   \<and> list_all is_space ''  '' \<and> list_all is_space '' ''
   \<and> lower ''Admin@Example.COM'' = lower ''admin@example.com''
   \<and> normalize_key (''  '' @ ''Admin@Example.COM'' @ '' '') = normalize_key ''admin@example.com''
   \<and> fst (get_entity_details init (''  '' @ ''Admin@Example.COM'' @ '' ''))
       = fst (get_entity_details init ''admin@example.com'')"
proof -
  have 1: "lower ''admin@example.com'' = ''admin@example.com''" by code_simp
  have 2: "\<not> is_space (hd ''admin@example.com'') \<and> \<not> is_space (last ''admin@example.com'')"
    by code_simp
  have 3: "list_all is_space ''  '' \<and> list_all is_space '' ''" by code_simp
  have 4: "lower ''Admin@Example.COM'' = lower ''admin@example.com''" by code_simp
  show ?thesis
    using normalize_key_idempotent[of "''admin@example.com''" s "''  ''" "'' ''"
        "''Admin@Example.COM''" "''admin@example.com''" init] 1 2 3 4
    unfolding list_all_iff by blast
qed

section \<open>The invariant and the ingestion\<close>

lemma item_update [simp]: "item (AList.update k v m) k' = (if k' = k then v else item m k')"
  by (simp add: item_def update_conv')

lemma item_touch [simp]: "item (touch k m) k' = item m k'"
  by (auto simp: item_def touch_def split: option.splits if_splits)

lemma update_touch [simp]: "AList.update k v (touch k m) = AList.update k v m"
  by (induction m) (auto simp: touch_def split: option.splits if_splits)

lemma touch_present: "k \<in> set (map fst m) \<Longrightarrow> touch k m = m"
  by (auto simp: touch_def map_of_eq_None_iff split: option.splits)

lemma keys_touch:
  "map fst (touch k m) = (if k \<in> set (map fst m) then map fst m else map fst m @ [k])"
  by (auto simp: touch_def map_of_eq_None_iff split: option.splits) (metis domI domIff map_of_eq_None_iff image_eqI fst_conv)+


lemma item_absent: "k \<notin> set (map fst m) \<Longrightarrow> item m k = default_entry"
  by (auto simp: item_def map_of_eq_None_iff split: option.splits) (metis  map_of_eq_None_iff image_eqI fst_conv option.distinct(1))


lemma keys_update':
  "fst ` set (AList.update k v m) = insert k (fst ` set m)"
  by (simp add: dom_update)

lemma sources_update [simp]:
  "sources (e\<lparr>correlation_map := AList.update k v (correlation_map e)\<rparr>) k' =
     (if k' = k then sources_of v else sources e k')"
  by (simp add: sources_def)

lemma engine_inv_update:
  assumes inv: "engine_inv e"
    and shape: "k \<noteq> ''raw_data'' \<longrightarrow> is_entity v"
    and imp: "\<And>r. v = Entity r \<Longrightarrow> 0 \<le> er_importance r"
    and src: "sources e k \<subseteq> sources_of v"
    and links: "\<And>b. b \<in> linked_of v \<Longrightarrow>
        (k \<in> set (map fst (correlation_map e)) \<and> b \<in> linked_entities e k) \<or>
        (k \<noteq> ''raw_data'' \<and> b \<noteq> ''raw_data'' \<and> b \<noteq> k \<and>
         b \<in> set (map fst (correlation_map e)) \<and> sources_of v \<inter> sources e b \<noteq> {})"
  shows "engine_inv (e\<lparr>correlation_map := AList.update k v (correlation_map e), relationships := rs\<rparr>)"
proof -
  let ?m = "correlation_map e"
  let ?e' = "e\<lparr>correlation_map := AList.update k v ?m, relationships := rs\<rparr>"
  have mono: "sources e x \<subseteq> sources ?e' x" for x
    using src by (auto simp: sources_def)
  have d: "distinct (map fst (AList.update k v ?m))"
    using inv by (simp add: engine_inv_def distinct_update)
  have old: "x \<noteq> ''raw_data'' \<longrightarrow> is_entity (item ?m x)"
    "\<And>r. item ?m x = Entity r \<Longrightarrow> 0 \<le> er_importance r"
    "\<And>r b. item ?m x = Entity r \<Longrightarrow> b \<in> er_linked_entities r \<Longrightarrow>
       x \<noteq> ''raw_data'' \<and> b \<noteq> ''raw_data'' \<and> b \<noteq> x \<and> b \<in> set (map fst ?m)
       \<and> sources e x \<inter> sources e b \<noteq> {}"
    if "x \<in> set (map fst ?m)" for x
    using inv that unfolding engine_inv_def by blast+
  have step: "x \<noteq> ''raw_data'' \<and> b \<noteq> ''raw_data'' \<and> b \<noteq> x \<and>
       b \<in> set (map fst (AList.update k v ?m)) \<and> sources ?e' x \<inter> sources ?e' b \<noteq> {}"
    if x: "x \<in> set (map fst (AList.update k v ?m))"
      and r: "item (AList.update k v ?m) x = Entity r" and b: "b \<in> er_linked_entities r"
    for x r b
  proof (cases "x = k")
    case False
    then have "x \<in> set (map fst ?m)" "item ?m x = Entity r"
      using x r by (auto simp: keys_update')
    from old(3)[OF this b] mono[of x] mono[of b] show ?thesis
      by (auto simp: keys_update')
  next
    case True
    then have "b \<in> linked_of v" using r b by simp
    from links[OF this] show ?thesis
    proof
      assume a: "k \<in> set (map fst ?m) \<and> b \<in> linked_entities e k"
      then obtain r0 where r0: "item ?m k = Entity r0" "b \<in> er_linked_entities r0"
        by (cases "item ?m k") (auto simp: linked_entities_def)
      from old(3)[OF _ r0] a mono[of k] mono[of b] True show ?thesis
        by (auto simp: keys_update')
    next
      assume a: "k \<noteq> ''raw_data'' \<and> b \<noteq> ''raw_data'' \<and> b \<noteq> k \<and>
         b \<in> set (map fst ?m) \<and> sources_of v \<inter> sources e b \<noteq> {}"
      then show ?thesis using True by (auto simp: keys_update' sources_def)
    qed
  qed
  have shape': "x \<noteq> ''raw_data'' \<longrightarrow> is_entity (item (AList.update k v ?m) x)"
    if "x \<in> set (map fst (AList.update k v ?m))" for x
  proof (cases "x = k")
    case True then show ?thesis using shape by simp
  next
    case False
    then have "x \<in> set (map fst ?m)" using that by (simp add: keys_update')
    from old(1)[OF this] False show ?thesis by simp
  qed
  have imp': "0 \<le> er_importance r"
    if "x \<in> set (map fst (AList.update k v ?m))" "item (AList.update k v ?m) x = Entity r" for x r
  proof (cases "x = k")
    case True then show ?thesis using imp that(2) by simp
  next
    case False
    then have "x \<in> set (map fst ?m)" "item ?m x = Entity r"
      using that by (simp_all add: keys_update')
    from old(2)[OF this] show ?thesis .
  qed
  have cm: "correlation_map ?e' = AList.update k v ?m" by simp
  show ?thesis
    unfolding engine_inv_def cm
  proof (intro conjI ballI allI impI)
    show "distinct (map fst (AList.update k v ?m))" by (rule d)
  next
    fix x assume "x \<in> set (map fst (AList.update k v ?m))" "x \<noteq> ''raw_data''"
    then show "is_entity (item (AList.update k v ?m) x)" using shape' by blast
  next
    fix x r assume "x \<in> set (map fst (AList.update k v ?m))" "item (AList.update k v ?m) x = Entity r"
    then show "0 \<le> er_importance r" by (rule imp')
  next
    fix x r b
    assume a: "x \<in> set (map fst (AList.update k v ?m))" "item (AList.update k v ?m) x = Entity r"
      "b \<in> er_linked_entities r"
    note s = step[OF a]
    show "x \<noteq> ''raw_data''" using s by blast
    show "b \<noteq> ''raw_data''" using s by blast
    show "b \<noteq> x" using s by blast
    show "b \<in> set (map fst (AList.update k v ?m))" using s by blast
    show "sources ?e' x \<inter> sources ?e' b \<noteq> {}" using s by blast
  qed
qed


lemma engine_inv_update_map:
  assumes "engine_inv e" "k \<noteq> ''raw_data'' \<longrightarrow> is_entity v"
    "\<And>r. v = Entity r \<Longrightarrow> 0 \<le> er_importance r"
    "sources e k \<subseteq> sources_of v"
    "\<And>b. b \<in> linked_of v \<Longrightarrow>
        (k \<in> set (map fst (correlation_map e)) \<and> b \<in> linked_entities e k) \<or>
        (k \<noteq> ''raw_data'' \<and> b \<noteq> ''raw_data'' \<and> b \<noteq> k \<and>
         b \<in> set (map fst (correlation_map e)) \<and> sources_of v \<inter> sources e b \<noteq> {})"
  shows "engine_inv (e\<lparr>correlation_map := AList.update k v (correlation_map e)\<rparr>)"
  using engine_inv_update[OF assms, of "relationships e"] by simp

lemma inv_shape:
  "engine_inv e \<Longrightarrow> k \<noteq> ''raw_data'' \<Longrightarrow> is_entity (item (correlation_map e) k)"
  by (cases "k \<in> set (map fst (correlation_map e))")
     (auto simp: engine_inv_def item_absent default_entry_def)

lemma linked_absent:
  "k \<notin> set (map fst (correlation_map e)) \<Longrightarrow> linked_entities e k = {}"
  by (simp add: linked_entities_def item_absent default_entry_def)

lemma add_entity_inv:
  assumes "engine_inv e"
  shows "engine_inv (engine_after (add_entity source ent e))"
proof (cases "ob_value ent")
  case None then show ?thesis using assms by (simp add: add_entity_def)
next
  case (Some v)
  note v = this
  show ?thesis
  proof (cases "ob_type ent")
    case None then show ?thesis using assms v by (simp add: add_entity_def)
  next
    case (Some t)
    let ?k = "normalize_key v"
    let ?m = "correlation_map e"
    show ?thesis
    proof (cases "item ?m ?k")
      case (Corpus c)
      have raw: "?k = ''raw_data''" using inv_shape[OF assms, of ?k] Corpus by auto
      define c2 where "c2 = (if cr_type c = None then c\<lparr>cr_type := Some t\<rparr> else c)
          \<lparr>cr_sources := insert source (cr_sources (if cr_type c = None then c\<lparr>cr_type := Some t\<rparr> else c))\<rparr>"
      have eq: "engine_after (add_entity source ent e) = e\<lparr>correlation_map := AList.update ?k (Corpus c2) ?m\<rparr>"
        using v Some Corpus by (simp add: add_entity_def Let_def c2_def)
      have "engine_inv (e\<lparr>correlation_map := AList.update ?k (Corpus c2) ?m\<rparr>)"
        using assms
      proof (rule engine_inv_update_map)
        show "?k \<noteq> ''raw_data'' \<longrightarrow> is_entity (Corpus c2)" using raw by simp
        show "sources e ?k \<subseteq> sources_of (Corpus c2)"
          using Corpus by (auto simp: sources_def c2_def)
      qed simp_all
      then show ?thesis by (simp only: eq)
    next
      case (Entity r)
      define r4 where "r4 = r\<lparr>er_type := (if er_type r = None then Some t else er_type r),
          er_sources := insert source (er_sources r),
          er_importance := max (er_importance r) (case ob_importance_score ent of None \<Rightarrow> 1 / 2 | Some h \<Rightarrow> h),
          er_occurrences := Some ((case er_occurrences r of None \<Rightarrow> [] | Some os \<Rightarrow> os) @ [ent])\<rparr>"
      have eq: "engine_after (add_entity source ent e) = e\<lparr>correlation_map := AList.update ?k (Entity r4) ?m\<rparr>"
        using v Some Entity by (simp add: add_entity_def Let_def r4_def)
      have r0: "0 \<le> er_importance r"
      proof (cases "?k \<in> set (map fst ?m)")
        case True then show ?thesis using assms Entity unfolding engine_inv_def by blast
      next
        case False then show ?thesis using Entity by (auto simp add: item_absent default_entry_def)
      qed
      have "engine_inv (e\<lparr>correlation_map := AList.update ?k (Entity r4) ?m\<rparr>)"
        using assms
      proof (rule engine_inv_update_map)
        show "?k \<noteq> ''raw_data'' \<longrightarrow> is_entity (Entity r4)" by simp
        show "0 \<le> er_importance r'" if "Entity r4 = Entity r'" for r'
          using that r0 by (auto simp: r4_def)
        show "sources e ?k \<subseteq> sources_of (Entity r4)"
          using Entity by (auto simp: sources_def r4_def)
        show "(?k \<in> set (map fst ?m) \<and> b \<in> linked_entities e ?k) \<or>
          (?k \<noteq> ''raw_data'' \<and> b \<noteq> ''raw_data'' \<and> b \<noteq> ?k \<and>
           b \<in> set (map fst ?m) \<and> sources_of (Entity r4) \<inter> sources e b \<noteq> {})"
          if "b \<in> linked_of (Entity r4)" for b
        proof -
          have b: "b \<in> linked_entities e ?k"
            using that Entity by (simp add: r4_def linked_entities_def)
          then have "?k \<in> set (map fst ?m)" using linked_absent[of ?k e] by auto
          with b show ?thesis by blast
        qed
      qed
      then show ?thesis by (simp only: eq)
    qed
  qed
qed

lemma add_raw_item_inv:
  assumes "engine_inv e"
  shows "engine_inv (engine_after (add_raw_item source content e))"
proof -
  let ?m = "correlation_map e"
  let ?c0 = "\<lparr>cr_type = Some ''metadata'', cr_sources = {}, cr_data = []\<rparr>"
  show ?thesis
  proof (cases "map_of ?m ''raw_data''")
    case None
    then have abs: "''raw_data'' \<notin> set (map fst ?m)" by (simp add: map_of_eq_None_iff)
    have eq: "engine_after (add_raw_item source content e) =
        e\<lparr>correlation_map := AList.update ''raw_data'' (Corpus (?c0\<lparr>cr_data := [(source, content)]\<rparr>)) ?m\<rparr>"
      using None by (simp add: add_raw_item_def Let_def)
    have "engine_inv (e\<lparr>correlation_map := AList.update ''raw_data'' (Corpus (?c0\<lparr>cr_data := [(source, content)]\<rparr>)) ?m\<rparr>)"
      using assms
    proof (rule engine_inv_update_map)
      show "sources e ''raw_data'' \<subseteq> sources_of (Corpus (?c0\<lparr>cr_data := [(source, content)]\<rparr>))"
        using abs by (simp add: sources_def item_absent default_entry_def)
    qed simp_all
    then show ?thesis by (simp only: eq)
  next
    case (Some v)
    then have it: "item ?m ''raw_data'' = v" by (simp add: item_def)
    show ?thesis
    proof (cases v)
      case (Entity r)
      then show ?thesis using Some it assms by (simp add: add_raw_item_def Let_def)
    next
      case (Corpus c)
      have eq: "engine_after (add_raw_item source content e) =
        e\<lparr>correlation_map := AList.update ''raw_data'' (Corpus (c\<lparr>cr_data := AList.update source content (cr_data c)\<rparr>)) ?m\<rparr>"
        using Some it Corpus by (simp add: add_raw_item_def Let_def)
      have "engine_inv (e\<lparr>correlation_map := AList.update ''raw_data'' (Corpus (c\<lparr>cr_data := AList.update source content (cr_data c)\<rparr>)) ?m\<rparr>)"
        using assms
      proof (rule engine_inv_update_map)
        show "sources e ''raw_data'' \<subseteq> sources_of (Corpus (c\<lparr>cr_data := AList.update source content (cr_data c)\<rparr>))"
          using it Corpus by (simp add: sources_def)
      qed simp_all
      then show ?thesis by (simp only: eq)
    qed
  qed
qed

lemma add_entities_inv:
  "engine_inv e \<Longrightarrow> engine_inv (engine_after (add_entities source ents e))"
proof (induction ents arbitrary: e)
  case Nil then show ?case by simp
next
  case (Cons a ents)
  from add_entity_inv[OF Cons.prems, of source a] Cons.IH show ?case
    by (cases "add_entity source a e") auto
qed

lemma add_parsed_entities_inv:
  "engine_inv e \<Longrightarrow> engine_inv (engine_after (add_parsed_entities pe e))"
proof (induction pe arbitrary: e)
  case Nil then show ?case by simp
next
  case (Cons a pe)
  obtain source ents where a: "a = (source, ents)" by (cases a)
  from add_entities_inv[OF Cons.prems, of source ents] Cons.IH show ?case
    unfolding a by (cases "add_entities source ents e") auto
qed

lemma add_raw_data_inv:
  "engine_inv e \<Longrightarrow> engine_inv (engine_after (add_raw_data rd e))"
proof (induction rd arbitrary: e)
  case Nil then show ?case by simp
next
  case (Cons a rd)
  obtain source content where a: "a = (source, content)" by (cases a)
  from add_raw_item_inv[OF Cons.prems, of source content] Cons.IH show ?case
    unfolding a by (cases "add_raw_item source content e") auto
qed

lemma init_inv: "engine_inv init"
  by (simp add: engine_inv_def init_def)


section \<open>The linking pass, the scoring pass and the result\<close>

lemma sources_of_plain [simp]: "sources_of (plain x) = sources_of x"
  by (cases x) simp_all

lemma is_entity_plain [simp]: "is_entity (plain x) = is_entity x"
  by (cases x) simp_all

lemma type_of_plain [simp]: "type_of (plain x) = type_of x"
  by (cases x) simp_all

lemma same_frame_refl [simp]: "same_frame e e"
  by (simp add: same_frame_def)

lemma same_frame_trans: "same_frame e e1 \<Longrightarrow> same_frame e1 e2 \<Longrightarrow> same_frame e e2"
  unfolding same_frame_def by (metis subset_trans)

lemma same_frame_entities: "same_frame e e' \<Longrightarrow> entities e' = entities e"
  by (simp add: same_frame_def entities_def)

lemma same_frame_sources: "same_frame e e' \<Longrightarrow> sources e' k = sources e k"
  unfolding same_frame_def sources_def by (metis sources_of_plain)

lemma same_frame_is_entity:
  "same_frame e e' \<Longrightarrow> is_entity (item (correlation_map e') k) = is_entity (item (correlation_map e) k)"
  unfolding same_frame_def by (metis is_entity_plain)

lemma same_frame_linked: "same_frame e e' \<Longrightarrow> b \<in> linked_entities e k \<Longrightarrow> b \<in> linked_entities e' k"
  unfolding same_frame_def by blast

lemma entities_keys: "k \<in> set (entities e) \<longleftrightarrow> k \<in> set (map fst (correlation_map e)) \<and> k \<noteq> ''raw_data''"
  by (auto simp: entities_def)

lemma link_update:
  fixes rs :: "relationship list"
  assumes inv: "engine_inv e"
    and a: "a \<in> set (entities e)" and b: "b \<in> set (entities e)" and ab: "a \<noteq> b"
    and r: "item (correlation_map e) a = Entity r"
    and common: "sources e a \<inter> sources e b \<noteq> {}"
  defines "e1 \<equiv> e\<lparr>correlation_map :=
      AList.update a (Entity (r\<lparr>er_linked_entities := insert b (er_linked_entities r)\<rparr>)) (correlation_map e),
      relationships := rs\<rparr>"
  shows "engine_inv e1" and "same_frame e e1" and "b \<in> linked_entities e1 a"
proof -
  let ?v = "Entity (r\<lparr>er_linked_entities := insert b (er_linked_entities r)\<rparr>)"
  have ak: "a \<in> set (map fst (correlation_map e))" "a \<noteq> ''raw_data''"
    and bk: "b \<in> set (map fst (correlation_map e))" "b \<noteq> ''raw_data''"
    using a b by (simp_all add: entities_keys)
  show "engine_inv e1" unfolding e1_def using inv
  proof (rule engine_inv_update)
    show "a \<noteq> ''raw_data'' \<longrightarrow> is_entity ?v" by simp
    show "0 \<le> er_importance r'" if "?v = Entity r'" for r'
      using that inv ak r unfolding engine_inv_def by auto
    show "sources e a \<subseteq> sources_of ?v" using r by (simp add: sources_def)
    show "(a \<in> set (map fst (correlation_map e)) \<and> x \<in> linked_entities e a) \<or>
        (a \<noteq> ''raw_data'' \<and> x \<noteq> ''raw_data'' \<and> x \<noteq> a \<and>
         x \<in> set (map fst (correlation_map e)) \<and> sources_of ?v \<inter> sources e x \<noteq> {})"
      if "x \<in> linked_of ?v" for x
    proof (cases "x = b")
      case True
      have "sources_of ?v = sources e a" using r by (simp add: sources_def)
      then show ?thesis using True ak bk ab common by auto
    next
      case False
      then have "x \<in> linked_entities e a" using that r by (simp add: linked_entities_def)
      then show ?thesis using ak by blast
    qed
  qed
  have keys: "map fst (correlation_map e1) = map fst (correlation_map e)"
    using ak by (simp add: e1_def update_keys)
  show "same_frame e e1"
    unfolding same_frame_def
  proof (intro conjI allI)
    show "map fst (correlation_map e1) = map fst (correlation_map e)" by (rule keys)
    show "plain (item (correlation_map e1) k) = plain (item (correlation_map e) k)" for k
      using r by (simp add: e1_def)
    show "linked_entities e k \<subseteq> linked_entities e1 k" for k
      using r by (auto simp: e1_def linked_entities_def)
  qed
  show "b \<in> linked_entities e1 a" by (simp add: e1_def linked_entities_def)
qed


lemma inv_entity:
  assumes "engine_inv e" "a \<in> set (entities e)"
  obtains r where "item (correlation_map e) a = Entity r"
  using inv_shape[OF assms(1), of a] assms(2)
  by (cases "item (correlation_map e) a") (auto simp: entities_keys)

lemma link_pair_ok:
  assumes inv: "engine_inv e"
    and a: "a \<in> set (entities e)" and b: "b \<in> set (entities e)" and ab: "a \<noteq> b"
  shows "\<exists>e'. link_pair a b e = Inr e' \<and> engine_inv e' \<and> same_frame e e' \<and>
      (sources e a \<inter> sources e b \<noteq> {} \<longrightarrow> b \<in> linked_entities e' a \<and> a \<in> linked_entities e' b) \<and>
      relationships e' = relationships e @
        (if sources e a \<inter> sources e b = {} then [] else [new_relationship e a b])"
proof -
  let ?m = "correlation_map e"
  have ak: "a \<in> set (map fst ?m)" and bk: "b \<in> set (map fst ?m)"
    using a b by (simp_all add: entities_keys)
  have t: "touch b (touch a ?m) = ?m" using ak bk by (simp add: touch_present)
  obtain r1 where r1: "item ?m a = Entity r1" using inv a by (rule inv_entity)
  obtain r2 where r2: "item ?m b = Entity r2" using inv b by (rule inv_entity)
  show ?thesis
  proof (cases "sources e a \<inter> sources e b = {}")
    case True
    then have "link_pair a b e = Inr e"
      by (simp add: link_pair_def t sources_def)
    then show ?thesis using inv True by simp
  next
    case False
    define e1 where "e1 = e\<lparr>correlation_map :=
      AList.update a (Entity (r1\<lparr>er_linked_entities := insert b (er_linked_entities r1)\<rparr>)) ?m,
      relationships := relationships e\<rparr>"
    note l1 = link_update[OF inv a b ab r1 False, of "relationships e", folded e1_def]
    have ents: "entities e1 = entities e" using l1(2) by (rule same_frame_entities)
    have src: "sources e1 k = sources e k" for k using l1(2) by (rule same_frame_sources)
    have r2': "item (correlation_map e1) b = Entity r2" using r2 ab by (simp add: e1_def)
    define e2 where "e2 = e1\<lparr>correlation_map :=
      AList.update b (Entity (r2\<lparr>er_linked_entities := insert a (er_linked_entities r2)\<rparr>)) (correlation_map e1),
      relationships := relationships e @ [new_relationship e a b]\<rparr>"
    have c1: "sources e1 b \<inter> sources e1 a \<noteq> {}" using False by (auto simp: src)
    have b1: "b \<in> set (entities e1)" and a1: "a \<in> set (entities e1)"
      using a b by (simp_all add: ents)
    note l2 = link_update[OF l1(1) b1 a1 ab[symmetric] r2' c1,
        of "relationships e @ [new_relationship e a b]", folded e2_def]
    have run: "link_pair a b e = Inr e2"
      using False r1 r2 ab
      by (simp add: link_pair_def t sources_def Let_def e2_def e1_def new_relationship_def)
    have "same_frame e e2" using l1(2) l2(2) by (rule same_frame_trans)
    moreover have "b \<in> linked_entities e2 a" using l2(2) l1(3) by (rule same_frame_linked)
    moreover have "relationships e2 = relationships e @ [new_relationship e a b]"
      by (simp add: e2_def)
    ultimately show ?thesis using run l2(1) l2(3) False by simp
  qed
qed

lemma new_relationship_frame:
  "same_frame e e' \<Longrightarrow> new_relationship e' a b = new_relationship e a b"
  by (simp add: new_relationship_def same_frame_sources)

lemma link_inner_ok:
  assumes "engine_inv e" "a \<in> set (entities e)" "set bs \<subseteq> set (entities e)" "a \<notin> set bs"
  shows "\<exists>e'. link_inner a bs e = Inr e' \<and> engine_inv e' \<and> same_frame e e' \<and>
      (\<forall>b\<in>set bs. sources e a \<inter> sources e b \<noteq> {} \<longrightarrow>
          b \<in> linked_entities e' a \<and> a \<in> linked_entities e' b) \<and>
      relationships e' = relationships e @
        map (new_relationship e a) (filter (\<lambda>b. sources e a \<inter> sources e b \<noteq> {}) bs)"
  using assms
proof (induction bs arbitrary: e)
  case Nil
  then show ?case by simp
next
  case (Cons b bs)
  have b: "b \<in> set (entities e)" and ab: "a \<noteq> b" using Cons.prems by auto
  from link_pair_ok[OF Cons.prems(1,2) b ab] obtain e1 where
    e1: "link_pair a b e = Inr e1" "engine_inv e1" "same_frame e e1"
      "sources e a \<inter> sources e b \<noteq> {} \<longrightarrow> b \<in> linked_entities e1 a \<and> a \<in> linked_entities e1 b"
      "relationships e1 = relationships e @
        (if sources e a \<inter> sources e b = {} then [] else [new_relationship e a b])"
    by blast
  have ents: "entities e1 = entities e" using e1(3) by (rule same_frame_entities)
  have src: "sources e1 k = sources e k" for k using e1(3) by (rule same_frame_sources)
  have nr: "new_relationship e1 a = new_relationship e a"
    using new_relationship_frame[OF e1(3)] by (simp add: fun_eq_iff)
  have "\<exists>e'. link_inner a bs e1 = Inr e' \<and> engine_inv e' \<and> same_frame e1 e' \<and>
      (\<forall>b\<in>set bs. sources e1 a \<inter> sources e1 b \<noteq> {} \<longrightarrow>
          b \<in> linked_entities e' a \<and> a \<in> linked_entities e' b) \<and>
      relationships e' = relationships e1 @
        map (new_relationship e1 a) (filter (\<lambda>b. sources e1 a \<inter> sources e1 b \<noteq> {}) bs)"
    using Cons.prems e1(2) by (intro Cons.IH) (auto simp: ents)
  then obtain e' where
    e': "link_inner a bs e1 = Inr e'" "engine_inv e'" "same_frame e1 e'"
      "\<forall>b\<in>set bs. sources e a \<inter> sources e b \<noteq> {} \<longrightarrow>
          b \<in> linked_entities e' a \<and> a \<in> linked_entities e' b"
      "relationships e' = relationships e1 @
        map (new_relationship e a) (filter (\<lambda>b. sources e a \<inter> sources e b \<noteq> {}) bs)"
    unfolding src nr by blast
  have fr: "same_frame e e'" using e1(3) e'(3) by (rule same_frame_trans)
  have hd: "sources e a \<inter> sources e b \<noteq> {} \<longrightarrow> b \<in> linked_entities e' a \<and> a \<in> linked_entities e' b"
    using e1(4) same_frame_linked[OF e'(3)] by blast
  have "link_inner a (b # bs) e = Inr e'" using e1(1) e'(1) by simp
  moreover have "relationships e' = relationships e @
        map (new_relationship e a) (filter (\<lambda>b. sources e a \<inter> sources e b \<noteq> {}) (b # bs))"
    using e'(5) e1(5) by simp
  ultimately show ?case using e'(2) fr hd e'(4) by (intro exI[of _ e']) simp
qed


lemma emitted_frame: "same_frame e e' \<Longrightarrow> emitted e' ks = emitted e ks"
  by (induction ks) (simp_all add: same_frame_sources new_relationship_frame)

lemma link_outer_ok:
  assumes "engine_inv e" "set ks \<subseteq> set (entities e)" "distinct ks"
  shows "\<exists>e'. link_outer ks e = Inr e' \<and> engine_inv e' \<and> same_frame e e' \<and>
      (\<forall>a\<in>set ks. \<forall>b\<in>set ks. a \<noteq> b \<and> sources e a \<inter> sources e b \<noteq> {} \<longrightarrow>
          b \<in> linked_entities e' a) \<and>
      relationships e' = relationships e @ emitted e ks"
  using assms
proof (induction ks arbitrary: e)
  case Nil
  then show ?case by simp
next
  case (Cons a ks)
  have a: "a \<in> set (entities e)" and ks: "set ks \<subseteq> set (entities e)" and na: "a \<notin> set ks"
    and d: "distinct ks"
    using Cons.prems by auto
  from link_inner_ok[OF Cons.prems(1) a ks na] obtain e1 where
    e1: "link_inner a ks e = Inr e1" "engine_inv e1" "same_frame e e1"
      "\<forall>b\<in>set ks. sources e a \<inter> sources e b \<noteq> {} \<longrightarrow>
          b \<in> linked_entities e1 a \<and> a \<in> linked_entities e1 b"
      "relationships e1 = relationships e @
        map (new_relationship e a) (filter (\<lambda>b. sources e a \<inter> sources e b \<noteq> {}) ks)"
    by blast
  have ents: "entities e1 = entities e" using e1(3) by (rule same_frame_entities)
  have src: "sources e1 k = sources e k" for k using e1(3) by (rule same_frame_sources)
  have "\<exists>e'. link_outer ks e1 = Inr e' \<and> engine_inv e' \<and> same_frame e1 e' \<and>
      (\<forall>a\<in>set ks. \<forall>b\<in>set ks. a \<noteq> b \<and> sources e1 a \<inter> sources e1 b \<noteq> {} \<longrightarrow>
          b \<in> linked_entities e' a) \<and>
      relationships e' = relationships e1 @ emitted e1 ks"
    using e1(2) ks d by (intro Cons.IH) (simp_all add: ents)
  then obtain e' where
    e': "link_outer ks e1 = Inr e'" "engine_inv e'" "same_frame e1 e'"
      "\<forall>a\<in>set ks. \<forall>b\<in>set ks. a \<noteq> b \<and> sources e a \<inter> sources e b \<noteq> {} \<longrightarrow>
          b \<in> linked_entities e' a"
      "relationships e' = relationships e1 @ emitted e ks"
    unfolding src emitted_frame[OF e1(3)] by blast
  have fr: "same_frame e e'" using e1(3) e'(3) by (rule same_frame_trans)
  have first: "\<forall>b\<in>set ks. sources e a \<inter> sources e b \<noteq> {} \<longrightarrow>
          b \<in> linked_entities e' a \<and> a \<in> linked_entities e' b"
    using e1(4) same_frame_linked[OF e'(3)] by blast
  have links: "y \<in> linked_entities e' x"
    if "x \<in> set (a # ks)" "y \<in> set (a # ks)" "x \<noteq> y" "sources e x \<inter> sources e y \<noteq> {}" for x y
  proof (cases "x = a")
    case True
    then have "y \<in> set ks" using that by auto
    then show ?thesis using first that(4) True by blast
  next
    case False
    then have x: "x \<in> set ks" using that by auto
    show ?thesis
    proof (cases "y = a")
      case True
      have "sources e a \<inter> sources e x \<noteq> {}" using that(4) True by blast
      then show ?thesis using first x True by blast
    next
      case False
      then have "y \<in> set ks" using that by auto
      then show ?thesis using e'(4) x that(3,4) by blast
    qed
  qed
  have "link_outer (a # ks) e = Inr e'" using e1(1) e'(1) by simp
  moreover have "relationships e' = relationships e @ emitted e (a # ks)"
    using e'(5) e1(5) by simp
  ultimately show ?case using e'(2) fr links by (intro exI[of _ e']) blast
qed

lemma distinct_entities: "engine_inv e \<Longrightarrow> distinct (entities e)"
  by (simp add: engine_inv_def entities_def distinct_map_filter)

lemma find_entity_links_ok:
  assumes "engine_inv e"
  shows "\<exists>e'. find_entity_links e = Inr e' \<and> engine_inv e' \<and> same_frame e e' \<and>
      (\<forall>a\<in>set (entities e). \<forall>b\<in>set (entities e). a \<noteq> b \<and> sources e a \<inter> sources e b \<noteq> {} \<longrightarrow>
          b \<in> linked_entities e' a) \<and>
      relationships e' = relationships e @ emitted e (entities e)"
  unfolding find_entity_links_def
  using assms distinct_entities[OF assms] by (intro link_outer_ok) simp_all


lemma score_entry_simps [simp]:
  "er_importance (score_entry r) = er_importance r"
  "er_sources (score_entry r) = er_sources r"
  "er_linked_entities (score_entry r) = er_linked_entities r"
  "er_type (score_entry r) = er_type r"
  "er_occurrences (score_entry r) = er_occurrences r"
  by (simp_all add: score_entry_def Let_def)

lemma score_entry_final: "er_final_score (score_entry r) = Some (spec_score r)"
  by (simp add: score_entry_def spec_score_def Let_def min.commute mult.commute)

lemma spec_score_score_entry [simp]: "spec_score (score_entry r) = spec_score r"
  by (simp add: spec_score_def)

lemma score_entry_idem [simp]: "score_entry (score_entry r) = score_entry r"
  by (simp add: score_entry_def Let_def)

lemma rescored_idem [simp]: "rescored (rescored x) = rescored x"
  by (cases x) simp_all

lemma rescored_simps [simp]:
  "plain (rescored x) = plain x" "linked_of (rescored x) = linked_of x"
  "sources_of (rescored x) = sources_of x" "is_entity (rescored x) = is_entity x"
  "type_of (rescored x) = type_of x"
  by (cases x; simp add: score_entry_def Let_def)+


lemma score_loop_ok:
  assumes "engine_inv e" "set ks \<subseteq> set (map fst (correlation_map e))"
  shows "\<exists>e'. score_loop ks e = Inr e' \<and> engine_inv e' \<and>
      map fst (correlation_map e') = map fst (correlation_map e) \<and>
      relationships e' = relationships e \<and>
      (\<forall>k. item (correlation_map e') k =
         (if k \<in> set ks \<and> k \<noteq> ''raw_data'' then rescored (item (correlation_map e) k)
          else item (correlation_map e) k))"
  using assms
proof (induction ks arbitrary: e)
  case Nil
  then show ?case by simp
next
  case (Cons k ks)
  let ?m = "correlation_map e"
  have kk: "k \<in> set (map fst ?m)" and ks: "set ks \<subseteq> set (map fst ?m)"
    using Cons.prems by auto
  show ?case
  proof (cases "k = ''raw_data''")
    case True
    from Cons.IH[OF Cons.prems(1) ks] True show ?thesis by auto
  next
    case False
    from inv_shape[OF Cons.prems(1) False] obtain r where r: "item ?m k = Entity r"
      by (cases "item ?m k") auto
    define e1 where "e1 = e\<lparr>correlation_map := AList.update k (Entity (score_entry r)) ?m\<rparr>"
    have inv1: "engine_inv e1" unfolding e1_def using Cons.prems(1)
    proof (rule engine_inv_update_map)
      show "0 \<le> er_importance r'" if "Entity (score_entry r) = Entity r'" for r'
        using that Cons.prems(1) kk r unfolding engine_inv_def by auto
      show "sources e k \<subseteq> sources_of (Entity (score_entry r))"
        using r by (simp add: sources_def)
      show "(k \<in> set (map fst ?m) \<and> b \<in> linked_entities e k) \<or>
        (k \<noteq> ''raw_data'' \<and> b \<noteq> ''raw_data'' \<and> b \<noteq> k \<and>
         b \<in> set (map fst ?m) \<and> sources_of (Entity (score_entry r)) \<inter> sources e b \<noteq> {})"
        if "b \<in> linked_of (Entity (score_entry r))" for b
        using that kk r by (simp add: linked_entities_def)
    qed simp
    have keys1: "map fst (correlation_map e1) = map fst ?m"
      using kk by (simp add: e1_def update_keys)
    have ks1: "set ks \<subseteq> set (map fst (correlation_map e1))" using ks by (simp only: keys1)
    from Cons.IH[OF inv1 ks1] obtain e' where
      e': "score_loop ks e1 = Inr e'" "engine_inv e'"
        "map fst (correlation_map e') = map fst (correlation_map e1)"
        "relationships e' = relationships e1"
        "\<forall>x. item (correlation_map e') x =
           (if x \<in> set ks \<and> x \<noteq> ''raw_data'' then rescored (item (correlation_map e1) x)
            else item (correlation_map e1) x)"
      by blast
    have run: "score_loop (k # ks) e = Inr e'"
      using False r e'(1) by (simp add: e1_def)
    have items: "item (correlation_map e') x =
         (if x \<in> set (k # ks) \<and> x \<noteq> ''raw_data'' then rescored (item ?m x) else item ?m x)" for x
      using e'(5) r False by (simp add: e1_def)
    have "relationships e' = relationships e" using e'(4) by (simp add: e1_def)
    then show ?thesis using run e'(2) e'(3) keys1 items by (intro exI[of _ e']) simp
  qed
qed

lemma calculate_entity_scores_ok:
  assumes "engine_inv e"
  shows "\<exists>e'. calculate_entity_scores e = Inr e' \<and> engine_inv e' \<and>
      map fst (correlation_map e') = map fst (correlation_map e) \<and>
      relationships e' = relationships e \<and>
      (\<forall>k. item (correlation_map e') k =
         (if k \<in> set (entities e) then rescored (item (correlation_map e) k)
          else item (correlation_map e) k))"
  using score_loop_ok[OF assms, of "map fst (correlation_map e)"]
  by (simp add: calculate_entity_scores_def entities_keys)

lemma count_linked_ok:
  "\<forall>k\<in>set ks. is_entity (item m k) \<Longrightarrow>
     count_linked m ks = Inr (length (filter (\<lambda>k. 0 < card (linked_of (item m k))) ks))"
proof (induction ks)
  case Nil then show ?case by simp
next
  case (Cons k ks)
  then obtain r where "item m k = Entity r" by (cases "item m k") auto
  with Cons show ?case by simp
qed


lemma compile_result_ok:
  assumes "engine_inv e"
  shows "compile_result e =
    Inr (\<lparr>total_entities = length (entities e),
          linked_count = length (filter (\<lambda>k. 0 < card (linked_entities e k)) (entities e)),
          high_value_count =
            length (filter (\<lambda>k. 4 / 5 \<le> final_score_or_0 (item (correlation_map e) k)) (entities e)),
          ctf_flags = filter (\<lambda>k. type_of (item (correlation_map e) k) = Some ''CTF_FLAG'') (entities e),
          api_keys = filter (\<lambda>k. type_of (item (correlation_map e) k) = Some ''API_KEY'') (entities e),
          credentials = filter (\<lambda>k. type_of (item (correlation_map e) k) = Some ''CREDENTIAL'') (entities e),
          res_relationships = relationships e,
          high_value_entities =
            filter (\<lambda>k. 4 / 5 \<le> final_score_or_0 (item (correlation_map e) k)) (entities e)\<rparr>, e)"
proof -
  have "\<forall>k\<in>set (entities e). is_entity (item (correlation_map e) k)"
    using inv_shape[OF assms] by (simp add: entities_keys)
  from count_linked_ok[OF this] show ?thesis
    by (simp add: compile_result_def Let_def linked_entities_def)
qed

lemma correlate_ok:
  assumes "engine_inv e"
  shows "\<exists>r e'. correlate e = Inr (r, e') \<and> compile_result e' = Inr (r, e') \<and>
      engine_inv e' \<and> same_frame e e' \<and>
      (\<forall>a\<in>set (entities e). \<forall>b\<in>set (entities e).
          a \<noteq> b \<and> sources e a \<inter> sources e b \<noteq> {} \<longrightarrow> b \<in> linked_entities e' a) \<and>
      relationships e' = relationships e @ emitted e (entities e) \<and>
      (\<forall>k\<in>set (entities e). \<exists>rec. item (correlation_map e') k = Entity rec \<and>
          er_final_score rec = Some (spec_score rec))"
proof -
  from find_entity_links_ok[OF assms] obtain e1 where
    e1: "find_entity_links e = Inr e1" "engine_inv e1" "same_frame e e1"
      "\<forall>a\<in>set (entities e). \<forall>b\<in>set (entities e).
          a \<noteq> b \<and> sources e a \<inter> sources e b \<noteq> {} \<longrightarrow> b \<in> linked_entities e1 a"
      "relationships e1 = relationships e @ emitted e (entities e)"
    by blast
  from calculate_entity_scores_ok[OF e1(2)] obtain e2 where
    e2: "calculate_entity_scores e1 = Inr e2" "engine_inv e2"
      "map fst (correlation_map e2) = map fst (correlation_map e1)"
      "relationships e2 = relationships e1"
      "\<forall>k. item (correlation_map e2) k =
         (if k \<in> set (entities e1) then rescored (item (correlation_map e1) k)
          else item (correlation_map e1) k)"
    by blast
  have fr12: "same_frame e1 e2"
    unfolding same_frame_def using e2(3) e2(5) by (simp add: linked_entities_def)
  have fr: "same_frame e e2" using e1(3) fr12 by (rule same_frame_trans)
  have ents1: "entities e1 = entities e" using e1(3) by (rule same_frame_entities)
  obtain r where r: "compile_result e2 = Inr (r, e2)"
    using compile_result_ok[OF e2(2)] by blast
  have run: "correlate e = Inr (r, e2)" using e1(1) e2(1) r by (simp add: correlate_def)
  have links: "\<forall>a\<in>set (entities e). \<forall>b\<in>set (entities e).
          a \<noteq> b \<and> sources e a \<inter> sources e b \<noteq> {} \<longrightarrow> b \<in> linked_entities e2 a"
    using e1(4) same_frame_linked[OF fr12] by blast
  have scores: "\<exists>rec. item (correlation_map e2) k = Entity rec \<and>
          er_final_score rec = Some (spec_score rec)" if "k \<in> set (entities e)" for k
  proof -
    have k1: "k \<in> set (entities e1)" using that by (simp add: ents1)
    obtain r1 where r1: "item (correlation_map e1) k = Entity r1"
      using e1(2) k1 by (rule inv_entity)
    have "item (correlation_map e2) k = Entity (score_entry r1)"
      using e2(5) k1 r1 by simp
    then show ?thesis by (simp add: score_entry_final)
  qed
  have "relationships e2 = relationships e @ emitted e (entities e)"
    using e2(4) e1(5) by simp
  then show ?thesis using run r e2(2) fr links scores by blast
qed

lemma step_inv: "engine_inv e \<Longrightarrow> engine_inv (step c e)"
proof (cases c)
  case (Add_raw_data rd)
  assume "engine_inv e" then show ?thesis using Add_raw_data by (simp add: add_raw_data_inv)
next
  case (Add_parsed_entities pe)
  assume "engine_inv e" then show ?thesis using Add_parsed_entities by (simp add: add_parsed_entities_inv)
next
  case Correlate
  assume "engine_inv e"
  from correlate_ok[OF this] obtain r e' where "correlate e = Inr (r, e')" "engine_inv e'" by blast
  then show ?thesis using Correlate by simp
next
  case (Get_entity_details k)
  assume "engine_inv e" then show ?thesis using Get_entity_details by (simp add: get_entity_details_def)
qed

lemma run_inv: "engine_inv e \<Longrightarrow> engine_inv (run cs e)"
  by (induction cs arbitrary: e) (simp_all add: step_inv)

lemma history_inv: "engine_inv (run cs init)"
  by (simp add: run_inv init_inv)


section \<open>Scores and links after a correlation\<close>

lemma scenario_b_state:
  "step Correlate (run scenario_b init) =
    \<lparr>correlation_map =
       [(''ctf{demo}'',
         Entity \<lparr>er_type = Some ''CTF_FLAG'', er_sources = {''source1''},
                 er_linked_entities = {''10.0.0.1''}, er_importance = 1 / 2,
                 er_occurrences = Some [\<lparr>ob_value = Some ''CTF{demo}'', ob_type = Some ''CTF_FLAG'',
                                          ob_importance_score = None\<rparr>],
                 er_final_score = Some (13 / 20)\<rparr>),
        (''10.0.0.1'',
         Entity \<lparr>er_type = Some ''IP_ADDRESS'', er_sources = {''source1''},
                 er_linked_entities = {''ctf{demo}''}, er_importance = 1 / 2,
                 er_occurrences = Some [\<lparr>ob_value = Some ''10.0.0.1'', ob_type = Some ''IP_ADDRESS'',
                                          ob_importance_score = None\<rparr>],
                 er_final_score = Some (13 / 20)\<rparr>)],
     relationships =
       [\<lparr>rel_entity1 = ''ctf{demo}'', rel_entity2 = ''10.0.0.1'', rel_kind = ''co_occurrence'',
         rel_sources = {''source1''}, strength = 1\<rparr>]\<rparr>"
  by code_simp





lemma inv_link:
  assumes "engine_inv e" "b \<in> linked_entities e a"
  shows "a \<in> set (entities e) \<and> b \<in> set (entities e) \<and> a \<noteq> b \<and> sources e a \<inter> sources e b \<noteq> {}"
proof -
  have ak: "a \<in> set (map fst (correlation_map e))"
    using assms(2) linked_absent[of a e] by auto
  obtain r where r: "item (correlation_map e) a = Entity r" "b \<in> er_linked_entities r"
    using assms(2) by (cases "item (correlation_map e) a") (auto simp: linked_entities_def)
  have "a \<noteq> ''raw_data'' \<and> b \<noteq> ''raw_data'' \<and> b \<noteq> a \<and>
        b \<in> set (map fst (correlation_map e)) \<and> sources e a \<inter> sources e b \<noteq> {}"
    using assms(1) ak r unfolding engine_inv_def by blast
  then show ?thesis using ak by (auto simp: entities_keys)
qed

lemma emitted_members:
  "x \<in> set (emitted e ks) \<Longrightarrow>
     \<exists>a b. x = new_relationship e a b \<and> a \<in> set ks \<and> b \<in> set ks \<and>
           sources e a \<inter> sources e b \<noteq> {}"
  by (induction ks) auto

lemma emitted_count:
  assumes "distinct ks" "a \<in> set ks" "b \<in> set ks" "a \<noteq> b"
  shows "length (filter (\<lambda>x. {rel_entity1 x, rel_entity2 x} = {a, b}) (emitted e ks)) =
     (if sources e a \<inter> sources e b = {} then 0 else 1)"
  using assms
proof (induction ks)
  case Nil then show ?case by simp
next
  case (Cons k ks)
  let ?P = "\<lambda>x. {rel_entity1 x, rel_entity2 x} = {a, b}"
  let ?first = "map (new_relationship e k) (filter (\<lambda>y. sources e k \<inter> sources e y \<noteq> {}) ks)"
  have none: "filter ?P (emitted e ks) = []" if "a \<notin> set ks \<or> b \<notin> set ks"
  proof -
    have "\<not> ?P x" if x: "x \<in> set (emitted e ks)" for x
    proof -
      from emitted_members[OF x] obtain c d where
        "x = new_relationship e c d" "c \<in> set ks" "d \<in> set ks" by blast
      then show ?thesis using \<open>a \<notin> set ks \<or> b \<notin> set ks\<close>
        by (auto simp: new_relationship_def doubleton_eq_iff)
    qed
    then show ?thesis by (simp add: filter_empty_conv)
  qed
  have single: "length (filter (\<lambda>y. y = c \<and> Q y) ks) = (if Q c then 1 else 0)"
    if "c \<in> set ks" "distinct ks" for c and Q :: "string \<Rightarrow> bool"
    using that by (induction ks) (auto simp: filter_empty_conv)
  show ?case
  proof (cases "k = a")
    case True
    then have b: "b \<in> set ks" and na: "a \<notin> set ks" and d: "distinct ks"
      using Cons.prems by auto
    have "filter ?P ?first = map (new_relationship e k) (filter (\<lambda>y. y = b \<and> sources e a \<inter> sources e y \<noteq> {}) ks)"
      using True Cons.prems(4)
      by (auto simp: filter_map o_def new_relationship_def doubleton_eq_iff intro!: arg_cong[where f="map _"] filter_cong)
    then have "length (filter ?P ?first) = (if sources e a \<inter> sources e b = {} then 0 else 1)"
      using single[OF b d, of "\<lambda>y. sources e a \<inter> sources e y \<noteq> {}"] by simp
    then show ?thesis using none na by simp
  next
    case False
    note ka = this
    show ?thesis
    proof (cases "k = b")
      case True
      then have a: "a \<in> set ks" and nb: "b \<notin> set ks" and d: "distinct ks"
        using Cons.prems by auto
      have "filter ?P ?first = map (new_relationship e k) (filter (\<lambda>y. y = a \<and> sources e b \<inter> sources e y \<noteq> {}) ks)"
        using True Cons.prems(4)
        by (auto simp: filter_map o_def new_relationship_def doubleton_eq_iff intro!: arg_cong[where f="map _"] filter_cong)
      then have "length (filter ?P ?first) = (if sources e b \<inter> sources e a = {} then 0 else 1)"
        using single[OF a d, of "\<lambda>y. sources e b \<inter> sources e y \<noteq> {}"] by simp
      then show ?thesis using none nb by (simp add: Int_commute)
    next
      case False
      then have "filter ?P ?first = []"
        using ka by (auto simp: filter_empty_conv new_relationship_def doubleton_eq_iff)
      moreover have "a \<in> set ks" "b \<in> set ks" "distinct ks" using Cons.prems ka False by auto
      ultimately show ?thesis using Cons.IH Cons.prems(4) by simp
    qed
  qed
qed


text \<open>
  C7. After any history of calls, \<^verbatim>\<open>correlate\<close> returns, and then: the links are
  symmetric for every pair of keys; two entity keys (keys of the map other than the
  reserved \<^verbatim>\<open>raw_data\<close>) are linked exactly when they are different and have a source
  in common; the call appends to the relationship list one
  dict for each linked pair and nothing else; and the strength of each is the number of
  sources the two keys have in common.
\<close>

theorem link_symmetry:
  "\<exists>r e'. correlate (run cs init) = Inr (r, e') \<and>
     (\<forall>a b. b \<in> linked_entities e' a \<longleftrightarrow> a \<in> linked_entities e' b) \<and>
     (\<forall>a\<in>set (entities e'). \<forall>b\<in>set (entities e').
        b \<in> linked_entities e' a \<longleftrightarrow> a \<noteq> b \<and> sources e' a \<inter> sources e' b \<noteq> {}) \<and>
     relationships e' = relationships (run cs init) @ emitted e' (entities e') \<and>
     res_relationships r = relationships e' \<and>
     (\<forall>x\<in>set (emitted e' (entities e')).
        rel_entity1 x \<in> set (entities e') \<and> rel_entity2 x \<in> set (entities e') \<and>
        rel_entity2 x \<in> linked_entities e' (rel_entity1 x) \<and>
        rel_sources x = sources e' (rel_entity1 x) \<inter> sources e' (rel_entity2 x) \<and>
        strength x = card (sources e' (rel_entity1 x) \<inter> sources e' (rel_entity2 x))) \<and>
     (\<forall>a\<in>set (entities e'). \<forall>b\<in>set (entities e'). a \<noteq> b \<longrightarrow>
        length (filter (\<lambda>x. {rel_entity1 x, rel_entity2 x} = {a, b}) (emitted e' (entities e')))
          = (if b \<in> linked_entities e' a then 1 else 0))"
proof -
  let ?e = "run cs init"
  from correlate_ok[OF history_inv, of cs] obtain r e' where
    c: "correlate ?e = Inr (r, e')" "compile_result e' = Inr (r, e')" "engine_inv e'"
      "same_frame ?e e'"
      "\<forall>a\<in>set (entities ?e). \<forall>b\<in>set (entities ?e).
          a \<noteq> b \<and> sources ?e a \<inter> sources ?e b \<noteq> {} \<longrightarrow> b \<in> linked_entities e' a"
      "relationships e' = relationships ?e @ emitted ?e (entities ?e)"
    by blast
  have ents: "entities ?e = entities e'" using same_frame_entities[OF c(4)] by simp
  have src: "sources ?e = sources e'" using same_frame_sources[OF c(4)] by (simp add: fun_eq_iff)
  have em: "emitted ?e (entities ?e) = emitted e' (entities e')"
    using emitted_frame[OF c(4)] ents by simp
  have complete: "b \<in> linked_entities e' a"
    if "a \<in> set (entities e')" "b \<in> set (entities e')" "a \<noteq> b" "sources e' a \<inter> sources e' b \<noteq> {}"
    for a b using c(5) that unfolding ents src by blast
  have sound: "a \<in> set (entities e') \<and> b \<in> set (entities e') \<and> a \<noteq> b \<and>
      sources e' a \<inter> sources e' b \<noteq> {}" if "b \<in> linked_entities e' a" for a b
    using inv_link[OF c(3) that] .
  have sym: "b \<in> linked_entities e' a \<longleftrightarrow> a \<in> linked_entities e' b" for a b
  proof
    assume "b \<in> linked_entities e' a"
    from sound[OF this] show "a \<in> linked_entities e' b"
      by (intro complete) (auto simp: Int_commute)
  next
    assume "a \<in> linked_entities e' b"
    from sound[OF this] show "b \<in> linked_entities e' a"
      by (intro complete) (auto simp: Int_commute)
  qed
  have iff: "b \<in> linked_entities e' a \<longleftrightarrow> a \<noteq> b \<and> sources e' a \<inter> sources e' b \<noteq> {}"
    if "a \<in> set (entities e')" "b \<in> set (entities e')" for a b
    using sound[of b a] complete[OF that] by blast
  have rel: "res_relationships r = relationships e'"
    using c(2) compile_result_ok[OF c(3)] by auto
  have members: "rel_entity1 x \<in> set (entities e') \<and> rel_entity2 x \<in> set (entities e') \<and>
        rel_entity2 x \<in> linked_entities e' (rel_entity1 x) \<and>
        rel_sources x = sources e' (rel_entity1 x) \<inter> sources e' (rel_entity2 x) \<and>
        strength x = card (sources e' (rel_entity1 x) \<inter> sources e' (rel_entity2 x))"
    if x: "x \<in> set (emitted e' (entities e'))" for x
  proof -
    from emitted_members[OF x] obtain a b where
      ab: "x = new_relationship e' a b" "a \<in> set (entities e')" "b \<in> set (entities e')"
        "sources e' a \<inter> sources e' b \<noteq> {}" by blast
    have "a \<noteq> b \<longrightarrow> b \<in> linked_entities e' a" using complete ab by blast
    moreover have "a \<noteq> b"
    proof -
      have d: "distinct (entities e')" using c(3) by (rule distinct_entities)
      have "\<And>y. y \<in> set (emitted e ks) \<Longrightarrow> distinct ks \<Longrightarrow> rel_entity1 y \<noteq> rel_entity2 y" for e ks
        by (induction ks) (auto simp: new_relationship_def)
      from this[OF x d] ab(1) show ?thesis by (simp add: new_relationship_def)
    qed
    ultimately show ?thesis using ab by (simp add: new_relationship_def)
  qed
  have count: "length (filter (\<lambda>x. {rel_entity1 x, rel_entity2 x} = {a, b}) (emitted e' (entities e')))
          = (if b \<in> linked_entities e' a then 1 else 0)"
    if "a \<in> set (entities e')" "b \<in> set (entities e')" "a \<noteq> b" for a b
    using emitted_count[OF distinct_entities[OF c(3)] that, of e'] iff[OF that(1,2)] that(3)
    by simp
  have "relationships e' = relationships ?e @ emitted e' (entities e')"
    using c(6) em by simp
  with c(1) sym iff rel members count show ?thesis by blast
qed

lemma scenario_b_before: "relationships (run scenario_b init) = []"
  by code_simp

theorem link_symmetry_witness:
  "''ctf{demo}'' \<in> set (entities (step Correlate (run scenario_b init))) \<and>
   ''10.0.0.1'' \<in> set (entities (step Correlate (run scenario_b init))) \<and>
   sources (step Correlate (run scenario_b init)) ''ctf{demo}''
     \<inter> sources (step Correlate (run scenario_b init)) ''10.0.0.1'' = {''source1''} \<and>
   ''10.0.0.1'' \<in> linked_entities (step Correlate (run scenario_b init)) ''ctf{demo}'' \<and>
   ''ctf{demo}'' \<in> linked_entities (step Correlate (run scenario_b init)) ''10.0.0.1'' \<and>
   emitted (step Correlate (run scenario_b init)) (entities (step Correlate (run scenario_b init)))
     = [\<lparr>rel_entity1 = ''ctf{demo}'', rel_entity2 = ''10.0.0.1'', rel_kind = ''co_occurrence'',
         rel_sources = {''source1''}, strength = 1\<rparr>] \<and>
   relationships (step Correlate (run scenario_b init))
     = emitted (step Correlate (run scenario_b init)) (entities (step Correlate (run scenario_b init)))"
proof -
  let ?E = "step Correlate (run scenario_b init)"
  have mem: "''ctf{demo}'' \<in> set (entities ?E)" "''10.0.0.1'' \<in> set (entities ?E)"
    unfolding scenario_b_state by code_simp+
  have src: "sources ?E ''ctf{demo}'' \<inter> sources ?E ''10.0.0.1'' = {''source1''}"
    unfolding scenario_b_state by code_simp
  have em: "emitted ?E (entities ?E)
     = [\<lparr>rel_entity1 = ''ctf{demo}'', rel_entity2 = ''10.0.0.1'', rel_kind = ''co_occurrence'',
         rel_sources = {''source1''}, strength = 1\<rparr>]"
    unfolding scenario_b_state by code_simp
  have "(\<forall>a b. b \<in> linked_entities ?E a \<longleftrightarrow> a \<in> linked_entities ?E b) \<and>
     (\<forall>a\<in>set (entities ?E). \<forall>b\<in>set (entities ?E).
        b \<in> linked_entities ?E a \<longleftrightarrow> a \<noteq> b \<and> sources ?E a \<inter> sources ?E b \<noteq> {}) \<and>
     relationships ?E = relationships (run scenario_b init) @ emitted ?E (entities ?E)"
    using link_symmetry[of scenario_b] by (elim exE conjE) simp
  then have c:
      "\<forall>a b. b \<in> linked_entities ?E a \<longleftrightarrow> a \<in> linked_entities ?E b"
      "\<forall>a\<in>set (entities ?E). \<forall>b\<in>set (entities ?E).
        b \<in> linked_entities ?E a \<longleftrightarrow> a \<noteq> b \<and> sources ?E a \<inter> sources ?E b \<noteq> {}"
      "relationships ?E = relationships (run scenario_b init) @ emitted ?E (entities ?E)"
    by blast+
  have ne: "''ctf{demo}'' \<noteq> ''10.0.0.1''" by simp
  have ne2: "sources ?E ''ctf{demo}'' \<inter> sources ?E ''10.0.0.1'' \<noteq> {}"
    unfolding src by simp
  have l1: "''10.0.0.1'' \<in> linked_entities ?E ''ctf{demo}''"
    using c(2)[rule_format, OF mem(1) mem(2)] ne ne2 by (simp only: simp_thms)
  then have l2: "''ctf{demo}'' \<in> linked_entities ?E ''10.0.0.1''"
    using c(1)[rule_format, of "''10.0.0.1''" "''ctf{demo}''"] by (simp only:)
  have "relationships ?E = emitted ?E (entities ?E)"
    using c(3) unfolding scenario_b_before by (simp only: append_Nil)
  with mem src l1 l2 em show ?thesis by (intro conjI)
qed


section \<open>Lookups and blank values\<close>

lemma add_entity_returns:
  assumes "ob_value ent = Some v" "ob_type ent = Some t"
    "item (correlation_map e) (normalize_key v) = Entity r"
  shows "add_entity source ent e =
    Inr (e\<lparr>correlation_map :=
           AList.update (normalize_key v)
             (Entity (r\<lparr>er_type := (if er_type r = None then Some t else er_type r),
                er_sources := insert source (er_sources r),
                er_importance := max (er_importance r)
                   (case ob_importance_score ent of None \<Rightarrow> 1 / 2 | Some h \<Rightarrow> h),
                er_occurrences := Some ((case er_occurrences r of None \<Rightarrow> [] | Some os \<Rightarrow> os) @ [ent])\<rparr>))
             (correlation_map e)\<rparr>)"
  using assms by (simp add: add_entity_def Let_def)

lemma add_entity_keys:
  "set (map fst (correlation_map (engine_after (add_entity source ent e))))
     \<subseteq> set (map fst (correlation_map e)) \<union> set (observation_keys [ent])"
  by (auto simp: add_entity_def Let_def keys_update' split: option.splits entry.splits)

lemma add_entities_keys:
  "set (map fst (correlation_map (engine_after (add_entities source ents e))))
     \<subseteq> set (map fst (correlation_map e)) \<union> set (observation_keys ents)"
proof (induction ents arbitrary: e)
  case Nil then show ?case by simp
next
  case (Cons a ents)
  show ?case
  proof (cases "add_entity source a e")
    case (Inl x)
    then show ?thesis using add_entity_keys[of source a e]
      by (cases x) (auto split: option.splits)
  next
    case (Inr e1)
    then show ?thesis using add_entity_keys[of source a e] Cons.IH[of e1]
      by (auto split: option.splits)
  qed
qed

lemma add_parsed_entities_keys:
  "set (map fst (correlation_map (engine_after (add_parsed_entities pe e))))
     \<subseteq> set (map fst (correlation_map e)) \<union> set (call_keys (Add_parsed_entities pe))"
proof (induction pe arbitrary: e)
  case Nil then show ?case by simp
next
  case (Cons a pe)
  obtain source ents where a: "a = (source, ents)" by (cases a)
  have ck: "set (call_keys (Add_parsed_entities (a # pe)))
      = set (observation_keys ents) \<union> set (call_keys (Add_parsed_entities pe))"
    unfolding a by simp
  note 1 = add_entities_keys[of source ents e]
  show ?case
  proof (cases "add_entities source ents e")
    case (Inl x)
    obtain err e1 where x: "x = (err, e1)" by (cases x)
    have "engine_after (add_parsed_entities (a # pe) e) = engine_after (add_entities source ents e)"
      unfolding a using Inl x by simp
    then have "set (map fst (correlation_map (engine_after (add_parsed_entities (a # pe) e))))
       = set (map fst (correlation_map (engine_after (add_entities source ents e))))"
      by (simp only:)
    then show ?thesis using 1 unfolding ck by blast
  next
    case (Inr e1)
    have "engine_after (add_parsed_entities (a # pe) e) = engine_after (add_parsed_entities pe e1)"
      unfolding a using Inr by simp
    then have "set (map fst (correlation_map (engine_after (add_parsed_entities (a # pe) e))))
       = set (map fst (correlation_map (engine_after (add_parsed_entities pe e1))))"
      by (simp only:)
    moreover have "set (map fst (correlation_map e1))
       \<subseteq> set (map fst (correlation_map e)) \<union> set (observation_keys ents)"
      using 1 Inr by simp
    ultimately show ?thesis using Cons.IH[of e1] unfolding ck by blast
  qed
qed

lemma add_raw_item_keys:
  "set (map fst (correlation_map (engine_after (add_raw_item source content e))))
     \<subseteq> insert ''raw_data'' (set (map fst (correlation_map e)))"
  by (auto simp: add_raw_item_def Let_def keys_update' split: entry.splits if_splits)

lemma add_raw_data_keys:
  "set (map fst (correlation_map (engine_after (add_raw_data rd e))))
     \<subseteq> set (map fst (correlation_map e)) \<union> set (call_keys (Add_raw_data rd))"
proof (induction rd arbitrary: e)
  case Nil then show ?case by simp
next
  case (Cons a rd)
  obtain source content where a: "a = (source, content)" by (cases a)
  have ck: "set (call_keys (Add_raw_data (a # rd))) = {''raw_data''}"
    "set (call_keys (Add_raw_data rd)) \<subseteq> {''raw_data''}" by simp_all
  note 1 = add_raw_item_keys[of source content e]
  show ?case
  proof (cases "add_raw_item source content e")
    case (Inl x)
    obtain err e1 where x: "x = (err, e1)" by (cases x)
    have "engine_after (add_raw_data (a # rd) e) = engine_after (add_raw_item source content e)"
      unfolding a using Inl x by simp
    then have "set (map fst (correlation_map (engine_after (add_raw_data (a # rd) e))))
       = set (map fst (correlation_map (engine_after (add_raw_item source content e))))"
      by (simp only:)
    then show ?thesis using 1 unfolding ck(1) by blast
  next
    case (Inr e1)
    have "engine_after (add_raw_data (a # rd) e) = engine_after (add_raw_data rd e1)"
      unfolding a using Inr by simp
    then have "set (map fst (correlation_map (engine_after (add_raw_data (a # rd) e))))
       = set (map fst (correlation_map (engine_after (add_raw_data rd e1))))"
      by (simp only:)
    moreover have "set (map fst (correlation_map e1))
       \<subseteq> insert ''raw_data'' (set (map fst (correlation_map e)))"
      using 1 Inr by simp
    ultimately show ?thesis using Cons.IH[of e1] ck(2) unfolding ck(1) by blast
  qed
qed

lemma step_keys:
  assumes "engine_inv e"
  shows "set (map fst (correlation_map (step c e))) \<subseteq> set (map fst (correlation_map e)) \<union> set (call_keys c)"
proof (cases c)
  case (Add_raw_data rd)
  then show ?thesis using add_raw_data_keys[of rd e] by simp
next
  case (Add_parsed_entities pe)
  then show ?thesis using add_parsed_entities_keys[of pe e] by simp
next
  case Correlate
  from correlate_ok[OF assms] obtain r e' where "correlate e = Inr (r, e')" "same_frame e e'" by blast
  then show ?thesis using Correlate by (simp add: same_frame_def)
next
  case (Get_entity_details k)
  then show ?thesis by (simp add: get_entity_details_def)
qed

lemma run_keys:
  "engine_inv e \<Longrightarrow>
   set (map fst (correlation_map (run cs e))) \<subseteq> set (map fst (correlation_map e)) \<union> set (history_keys cs)"
proof (induction cs arbitrary: e)
  case Nil then show ?case by simp
next
  case (Cons c cs)
  from Cons.IH[OF step_inv[OF Cons.prems], of c] step_keys[OF Cons.prems, of c]
  show ?case by (auto simp: history_keys_def)
qed

text \<open>
  C9. A lookup whose normalised key is not a key of the map returns None and the engine as
  it was, so the probed key is still not a key of the map afterwards; in particular, after
  any history of calls, the lookup of a value whose key no call of the history could store
  returns None and changes nothing.
\<close>

theorem get_entity_details_unseen:
  "(normalize_key v \<notin> set (map fst (correlation_map e)) \<longrightarrow>
      get_entity_details e v = (None, e) \<and>
      normalize_key v \<notin> set (map fst (correlation_map (snd (get_entity_details e v))))) \<and>
   (normalize_key v \<notin> set (history_keys cs) \<longrightarrow>
      get_entity_details (run cs init) v = (None, run cs init) \<and>
      run (cs @ [Get_entity_details v]) init = run cs init)"
proof -
  have a: "get_entity_details e v = (None, e)"
    if "normalize_key v \<notin> set (map fst (correlation_map e))" for e
    using that by (simp add: get_entity_details_def map_of_eq_None_iff)
  have run_app: "run (xs @ ys) e = run ys (run xs e)" for xs ys e
    by (induction xs arbitrary: e) simp_all
  have b: "normalize_key v \<notin> set (map fst (correlation_map (run cs init)))"
    if "normalize_key v \<notin> set (history_keys cs)"
    using run_keys[OF init_inv, of cs] that by (auto simp: init_def)
  show ?thesis using a[of e] a[OF b] by (auto simp: run_app)
qed


theorem get_entity_details_unseen_witness:
  "normalize_key ''Ghost '' \<notin> set (map fst (correlation_map (run scenario_b init))) \<and>
   normalize_key ''Ghost '' \<notin> set (history_keys scenario_b) \<and>
   get_entity_details (run scenario_b init) ''Ghost '' = (None, run scenario_b init) \<and>
   normalize_key ''Ghost ''
     \<notin> set (map fst (correlation_map (snd (get_entity_details (run scenario_b init) ''Ghost '')))) \<and>
   run (scenario_b @ [Get_entity_details ''Ghost '']) init = run scenario_b init"
proof -
  have h1: "normalize_key ''Ghost '' \<notin> set (map fst (correlation_map (run scenario_b init)))"
    by code_simp
  have h2: "normalize_key ''Ghost '' \<notin> set (history_keys scenario_b)"
    by code_simp
  show ?thesis
    using get_entity_details_unseen[of "''Ghost ''" "run scenario_b init" scenario_b] h1 h2
    by blast
qed

lemma add_entity_blank:
  assumes inv: "engine_inv e" and v: "ob_value ent = Some v" and t: "ob_type ent = Some t"
    and blank: "\<forall>c\<in>set v. is_space c"
  shows "\<exists>e'. add_entity source ent e = Inr e' \<and> engine_inv e' \<and>
     map fst (correlation_map e') =
       (if [] \<in> set (map fst (correlation_map e)) then map fst (correlation_map e)
        else map fst (correlation_map e) @ [[]])"
proof -
  have k: "normalize_key v = []" using blank by (rule normalize_blank)
  obtain r where r: "item (correlation_map e) [] = Entity r"
    using inv_shape[OF inv, of "[]"] by (cases "item (correlation_map e) []") auto
  note run = add_entity_returns[OF v t, of e r source, unfolded k, OF r]
  have "engine_inv (engine_after (add_entity source ent e))" using inv by (rule add_entity_inv)
  then show ?thesis unfolding run by (simp add: update_keys)
qed

lemma add_entities_blank:
  assumes "engine_inv e"
    "\<forall>ent\<in>set ents. \<exists>v t. ob_value ent = Some v \<and> ob_type ent = Some t \<and> (\<forall>c\<in>set v. is_space c)"
  shows "\<exists>e'. add_entities source ents e = Inr e' \<and> engine_inv e' \<and>
     map fst (correlation_map e') =
       (if [] \<in> set (map fst (correlation_map e)) \<or> ents = [] then map fst (correlation_map e)
        else map fst (correlation_map e) @ [[]])"
  using assms
proof (induction ents arbitrary: e)
  case Nil then show ?case by simp
next
  case (Cons a ents)
  from Cons.prems(2) obtain v t where
    a: "ob_value a = Some v" "ob_type a = Some t" "\<forall>c\<in>set v. is_space c" by auto
  from add_entity_blank[OF Cons.prems(1) a, of source] obtain e1 where
    e1: "add_entity source a e = Inr e1" "engine_inv e1"
      "map fst (correlation_map e1) =
       (if [] \<in> set (map fst (correlation_map e)) then map fst (correlation_map e)
        else map fst (correlation_map e) @ [[]])" by blast
  have in1: "[] \<in> set (map fst (correlation_map e1))" unfolding e1(3) by simp
  from Cons.IH[OF e1(2)] Cons.prems(2) obtain e' where
    e': "add_entities source ents e1 = Inr e'" "engine_inv e'"
      "map fst (correlation_map e') = map fst (correlation_map e1)"
    using in1 by auto
  show ?case using e1(1,3) e' by simp
qed

lemma add_parsed_entities_blank:
  assumes "engine_inv e"
    "\<forall>(source, ents)\<in>set pe. \<forall>ent\<in>set ents.
       \<exists>v t. ob_value ent = Some v \<and> ob_type ent = Some t \<and> (\<forall>c\<in>set v. is_space c)"
  shows "\<exists>e'. add_parsed_entities pe e = Inr e' \<and> engine_inv e' \<and>
     map fst (correlation_map e') =
       (if [] \<in> set (map fst (correlation_map e)) \<or> concat (map snd pe) = []
        then map fst (correlation_map e) else map fst (correlation_map e) @ [[]])"
  using assms
proof (induction pe arbitrary: e)
  case Nil then show ?case by simp
next
  case (Cons a pe)
  obtain source ents where a: "a = (source, ents)" by (cases a)
  have b: "\<forall>ent\<in>set ents. \<exists>v t. ob_value ent = Some v \<and> ob_type ent = Some t \<and> (\<forall>c\<in>set v. is_space c)"
    using Cons.prems(2) unfolding a by auto
  from add_entities_blank[OF Cons.prems(1) b, of source] obtain e1 where
    e1: "add_entities source ents e = Inr e1" "engine_inv e1"
      "map fst (correlation_map e1) =
       (if [] \<in> set (map fst (correlation_map e)) \<or> ents = [] then map fst (correlation_map e)
        else map fst (correlation_map e) @ [[]])" by blast
  have rest: "\<forall>(source, ents)\<in>set pe. \<forall>ent\<in>set ents.
       \<exists>v t. ob_value ent = Some v \<and> ob_type ent = Some t \<and> (\<forall>c\<in>set v. is_space c)"
    using Cons.prems(2) by simp
  from Cons.IH[OF e1(2) rest] obtain e' where
    e': "add_parsed_entities pe e1 = Inr e'" "engine_inv e'"
      "map fst (correlation_map e') =
       (if [] \<in> set (map fst (correlation_map e1)) \<or> concat (map snd pe) = []
        then map fst (correlation_map e1) else map fst (correlation_map e1) @ [[]])" by blast
  have "add_parsed_entities (a # pe) e = Inr e'" unfolding a using e1(1) e'(1) by simp
  moreover have "map fst (correlation_map e') =
       (if [] \<in> set (map fst (correlation_map e)) \<or> concat (map snd (a # pe)) = []
        then map fst (correlation_map e) else map fst (correlation_map e) @ [[]])"
    unfolding e'(3) e1(3) a by auto
  ultimately show ?case using e'(2) by blast
qed

text \<open>
  C10. A value that is empty or all white space has the empty string as its key. After any
  history of calls, a batch whose observations all have a type and such a value is
  ingested without an exception; it adds the one key \<^verbatim>\<open>''\<close> to the map, last, unless
  that key was there already or the batch has no observation; and the next
  \<^verbatim>\<open>correlate\<close> returns a total count that is the count of entity keys before the batch
  plus one for that one new key.
\<close>

theorem blank_values_merge:
  assumes "\<forall>(source, ents)\<in>set pe. \<forall>ent\<in>set ents.
       \<exists>v t. ob_value ent = Some v \<and> ob_type ent = Some t \<and> (\<forall>c\<in>set v. is_space c)"
  shows "\<exists>e'. add_parsed_entities pe (run cs init) = Inr e' \<and>
     (\<forall>(source, ents)\<in>set pe. \<forall>ent\<in>set ents. \<forall>v. ob_value ent = Some v \<longrightarrow> normalize_key v = []) \<and>
     map fst (correlation_map e') =
       (if [] \<in> set (map fst (correlation_map (run cs init))) \<or> concat (map snd pe) = []
        then map fst (correlation_map (run cs init))
        else map fst (correlation_map (run cs init)) @ [[]]) \<and>
     (\<exists>r e''. correlate e' = Inr (r, e'') \<and>
        total_entities r = length (entities (run cs init)) +
          (if [] \<in> set (map fst (correlation_map (run cs init))) \<or> concat (map snd pe) = []
           then 0 else 1))"
proof -
  let ?e = "run cs init"
  from add_parsed_entities_blank[OF history_inv assms, of cs] obtain e' where
    e': "add_parsed_entities pe ?e = Inr e'" "engine_inv e'"
      "map fst (correlation_map e') =
       (if [] \<in> set (map fst (correlation_map ?e)) \<or> concat (map snd pe) = []
        then map fst (correlation_map ?e) else map fst (correlation_map ?e) @ [[]])" by blast
  from correlate_ok[OF e'(2)] obtain r e'' where
    c: "correlate e' = Inr (r, e'')" "compile_result e'' = Inr (r, e'')" "engine_inv e''"
      "same_frame e' e''" by blast
  have "total_entities r = length (entities e'')"
    using c(2) compile_result_ok[OF c(3)] by auto
  also have "\<dots> = length (entities e')" using same_frame_entities[OF c(4)] by simp
  also have "\<dots> = length (entities ?e) +
          (if [] \<in> set (map fst (correlation_map ?e)) \<or> concat (map snd pe) = [] then 0 else 1)"
    unfolding entities_def e'(3) by simp
  finally have total: "total_entities r = length (entities ?e) +
          (if [] \<in> set (map fst (correlation_map ?e)) \<or> concat (map snd pe) = [] then 0 else 1)" .
  have keys: "\<forall>(source, ents)\<in>set pe. \<forall>ent\<in>set ents. \<forall>v. ob_value ent = Some v \<longrightarrow> normalize_key v = []"
    using assms normalize_blank by fastforce
  show ?thesis using e'(1,3) keys c(1) total by blast
qed


theorem blank_values_merge_witness:
  "list_all (\<lambda>(source, ents).
      list_all (\<lambda>ent. \<exists>v t. ob_value ent = Some v \<and> ob_type ent = Some t \<and> list_all is_space v) ents)
      blank_batch \<and>
   (\<exists>e'. add_parsed_entities blank_batch (run [] init) = Inr e' \<and>
      map fst (correlation_map e') = [[]] \<and>
      (\<exists>r e''. correlate e' = Inr (r, e'') \<and> total_entities r = 1))"
proof -
  have sp: "is_space (CHR 0x20)" "is_space (CHR 0x09)" by (simp_all add: is_space_def)
  have h: "list_all (\<lambda>(source, ents).
      list_all (\<lambda>ent. \<exists>v t. ob_value ent = Some v \<and> ob_type ent = Some t \<and> list_all is_space v) ents)
      blank_batch"
    by (simp add: blank_batch_def sp)
  then have h': "\<forall>(source, ents)\<in>set blank_batch. \<forall>ent\<in>set ents.
       \<exists>v t. ob_value ent = Some v \<and> ob_type ent = Some t \<and> (\<forall>c\<in>set v. is_space c)"
    by (simp add: list_all_iff case_prod_beta)
  have ne: "concat (map snd blank_batch) \<noteq> []" by (simp add: blank_batch_def)
  have "\<exists>e'. add_parsed_entities blank_batch (run [] init) = Inr e' \<and>
      map fst (correlation_map e') = [[]] \<and>
      (\<exists>r e''. correlate e' = Inr (r, e'') \<and> total_entities r = 1)"
  proof -
    have i: "run [] init = init" "map fst (correlation_map init) = []" "entities init = []"
      by (simp_all add: init_def entities_def)
    have c: "([] \<in> set [] \<or> concat (map snd blank_batch) = []) = False" using ne by simp
    from blank_values_merge[OF h', of "[]"] show ?thesis
      unfolding i c by (simp only: if_False append_Nil list.size add_0) auto
  qed
  with h show ?thesis by (rule conjI)
qed


section \<open>Ingestion: importance, malformed records, types\<close>

text \<open>
  C3, as the code has it. An observation with a value and a type, for a key that does not
  hold the corpus record, is ingested without an exception, and the importance of its key
  becomes the maximum of the previous importance (0 for a key that is new) and the
  \<^verbatim>\<open>importance_score\<close> the observation carries, or 0.5 when it carries none. The table
  of the parser is not consulted.
\<close>

theorem importance_is_max_of_hint:
  assumes "ob_value ent = Some v" "ob_type ent = Some t"
    "item (correlation_map e) (normalize_key v) = Entity r"
  shows "\<exists>e' r'. add_entity source ent e = Inr e' \<and>
     map_of (correlation_map e') (normalize_key v) = Some (Entity r') \<and>
     er_importance r' =
       max (er_importance r) (case ob_importance_score ent of None \<Rightarrow> 1 / 2 | Some h \<Rightarrow> h)"
  unfolding add_entity_returns[OF assms] by (simp add: update_conv')

theorem importance_is_max_of_hint_witness:
  "item (correlation_map init) (normalize_key ''CTF{demo}'')
     = Entity \<lparr>er_type = None, er_sources = {}, er_linked_entities = {}, er_importance = 0,
               er_occurrences = None, er_final_score = None\<rparr> \<and>
   (\<exists>e' r'. add_entity ''source1''
        \<lparr>ob_value = Some ''CTF{demo}'', ob_type = Some ''CTF_FLAG'', ob_importance_score = Some (4 / 5)\<rparr>
        init = Inr e' \<and>
      map_of (correlation_map e') (normalize_key ''CTF{demo}'') = Some (Entity r') \<and>
      er_importance r' = 4 / 5)"
proof -
  have i: "item (correlation_map init) (normalize_key ''CTF{demo}'')
     = Entity \<lparr>er_type = None, er_sources = {}, er_linked_entities = {}, er_importance = 0,
               er_occurrences = None, er_final_score = None\<rparr>"
    by (simp add: init_def item_def default_entry_def)
  show ?thesis
    using importance_is_max_of_hint[of
        "\<lparr>ob_value = Some ''CTF{demo}'', ob_type = Some ''CTF_FLAG'', ob_importance_score = Some (4 / 5)\<rparr>"
        "''CTF{demo}''" "''CTF_FLAG''" init _ "''source1''", OF _ _ i] i
    by simp
qed

text \<open>
  An observation of type \<^verbatim>\<open>CTF_FLAG\<close> with no \<^verbatim>\<open>importance_score\<close>, ingested by a new
  engine: the importance of its key is 0.5, while the table of the parser gives 1.
\<close>

theorem importance_table_counterexample:
  "add_entity ''source1''
     \<lparr>ob_value = Some ''CTF{demo}'', ob_type = Some ''CTF_FLAG'', ob_importance_score = None\<rparr> init
   = Inr \<lparr>correlation_map =
            [(''ctf{demo}'',
              Entity \<lparr>er_type = Some ''CTF_FLAG'', er_sources = {''source1''},
                      er_linked_entities = {}, er_importance = 1 / 2,
                      er_occurrences =
                        Some [\<lparr>ob_value = Some ''CTF{demo}'', ob_type = Some ''CTF_FLAG'',
                               ob_importance_score = None\<rparr>],
                      er_final_score = None\<rparr>)],
          relationships = []\<rparr> \<and>
   score_entity_importance
     \<lparr>ob_value = Some ''CTF{demo}'', ob_type = Some ''CTF_FLAG'', ob_importance_score = None\<rparr> = 1"
  by code_simp

lemma add_entities_append:
  "add_entities source (xs @ ys) e =
     (case add_entities source xs e of Inl x \<Rightarrow> Inl x | Inr e' \<Rightarrow> add_entities source ys e')"
  by (induction xs arbitrary: e) (simp_all split: sum.splits)

lemma add_parsed_entities_append:
  "add_parsed_entities (xs @ ys) e =
     (case add_parsed_entities xs e of Inl x \<Rightarrow> Inl x | Inr e' \<Rightarrow> add_parsed_entities ys e')"
  by (induction xs arbitrary: e) (auto split: sum.splits)

text \<open>
  C4, as the code has it. A record with no \<^verbatim>\<open>value\<close> or no \<^verbatim>\<open>type\<close> raises KeyError,
  and the exception ends the whole call: the engine is left exactly as the records before
  the offending one made it (those are ingested, the offending record changes nothing),
  and the records after it, in its source and in the later sources, are not processed.
\<close>

theorem malformed_observation_aborts:
  assumes "add_parsed_entities before e = Inr e0"
    and "add_entities source pre e0 = Inr e1"
    and "ob_value bad = None \<or> ob_type bad = None"
  shows "add_parsed_entities (before @ (source, pre @ bad # post) # later) e =
     Inl (KeyError (if ob_value bad = None then ''value'' else ''type''), e1)"
proof -
  have "add_entity source bad e1 =
      Inl (KeyError (if ob_value bad = None then ''value'' else ''type''), e1)"
    using assms(3) by (auto simp: add_entity_def split: option.splits)
  then have "add_entities source (pre @ bad # post) e0 =
      Inl (KeyError (if ob_value bad = None then ''value'' else ''type''), e1)"
    using assms(2) by (simp add: add_entities_append)
  then show ?thesis using assms(1) by (simp add: add_parsed_entities_append)
qed


theorem malformed_observation_aborts_witness:
  "add_parsed_entities [] init = Inr init \<and>
   add_entities ''source1'' [admin_email] init
     = Inr (run [Add_parsed_entities [(''source1'', [admin_email])]] init) \<and>
   ob_type untyped = None \<and>
   add_parsed_entities
      ([] @ (''source1'', [admin_email] @ untyped # [ip_address]) # [(''source2'', [ip_address])]) init
     = Inl (KeyError ''type'', run [Add_parsed_entities [(''source1'', [admin_email])]] init) \<and>
   map fst (correlation_map (run [Add_parsed_entities [(''source1'', [admin_email])]] init))
     = [''admin@example.com'']"
proof -
  have h1: "add_parsed_entities [] init = Inr init" by simp
  have h2: "add_entities ''source1'' [admin_email] init
     = Inr (run [Add_parsed_entities [(''source1'', [admin_email])]] init)" by code_simp
  have h3: "ob_type untyped = None" by (simp add: untyped_def)
  have k: "map fst (correlation_map (run [Add_parsed_entities [(''source1'', [admin_email])]] init))
     = [''admin@example.com'']" by code_simp
  have v: "ob_value untyped \<noteq> None" by (simp add: untyped_def)
  from malformed_observation_aborts[OF h1 h2, of untyped "[ip_address]" "[(''source2'', [ip_address])]"]
    h3 v
  have "add_parsed_entities
      ([] @ (''source1'', [admin_email] @ untyped # [ip_address]) # [(''source2'', [ip_address])]) init
     = Inl (KeyError ''type'', run [Add_parsed_entities [(''source1'', [admin_email])]] init)"
    by simp
  with h1 h2 h3 k show ?thesis by (intro conjI)
qed

text \<open>
  A batch whose first record has no type and whose second record is well formed: the call
  raises and leaves the new engine as it was, though the second record alone is ingested.
\<close>

theorem malformed_observation_counterexample:
  "add_parsed_entities [(''source1'', [untyped, admin_email])] init = Inl (KeyError ''type'', init) \<and>
   add_parsed_entities [(''source1'', [admin_email])] init
     = Inr (run [Add_parsed_entities [(''source1'', [admin_email])]] init) \<and>
   run [Add_parsed_entities [(''source1'', [admin_email])]] init \<noteq> init"
  by code_simp


lemma add_entity_type:
  "type_of (item (correlation_map e) k) = Some t \<Longrightarrow>
   type_of (item (correlation_map (engine_after (add_entity source ent e))) k) = Some t"
  by (auto simp: add_entity_def Let_def split: option.splits entry.splits)

lemma add_entities_type:
  "type_of (item (correlation_map e) k) = Some t \<Longrightarrow>
   type_of (item (correlation_map (engine_after (add_entities source ents e))) k) = Some t"
proof (induction ents arbitrary: e)
  case Nil then show ?case by simp
next
  case (Cons a ents)
  note 1 = add_entity_type[OF Cons.prems, of source a]
  show ?case
  proof (cases "add_entity source a e")
    case (Inl x)
    then show ?thesis using 1 by (cases x) simp
  next
    case (Inr e1)
    then show ?thesis using 1 Cons.IH[of e1] by simp
  qed
qed

lemma add_parsed_entities_type:
  "type_of (item (correlation_map e) k) = Some t \<Longrightarrow>
   type_of (item (correlation_map (engine_after (add_parsed_entities pe e))) k) = Some t"
proof (induction pe arbitrary: e)
  case Nil then show ?case by simp
next
  case (Cons a pe)
  obtain source ents where a: "a = (source, ents)" by (cases a)
  note 1 = add_entities_type[OF Cons.prems, of source ents]
  show ?case
  proof (cases "add_entities source ents e")
    case (Inl x)
    then show ?thesis using 1 unfolding a by (cases x) simp
  next
    case (Inr e1)
    then show ?thesis using 1 Cons.IH[of e1] unfolding a by simp
  qed
qed

lemma add_raw_item_type:
  assumes "type_of (item (correlation_map e) k) = Some t"
  shows "type_of (item (correlation_map (engine_after (add_raw_item source content e))) k) = Some t"
proof (cases "map_of (correlation_map e) ''raw_data'' = None")
  case True
  then have "item (correlation_map e) ''raw_data'' = default_entry" by (simp add: item_def)
  then have "k \<noteq> ''raw_data''" using assms by (auto simp: default_entry_def)
  then show ?thesis using True assms by (simp add: add_raw_item_def Let_def)
next
  case False
  then show ?thesis using assms
    by (cases "item (correlation_map e) ''raw_data''") (auto simp: add_raw_item_def Let_def)
qed

lemma add_raw_data_type:
  "type_of (item (correlation_map e) k) = Some t \<Longrightarrow>
   type_of (item (correlation_map (engine_after (add_raw_data rd e))) k) = Some t"
proof (induction rd arbitrary: e)
  case Nil then show ?case by simp
next
  case (Cons a rd)
  obtain source content where a: "a = (source, content)" by (cases a)
  note 1 = add_raw_item_type[OF Cons.prems, of source content]
  show ?case
  proof (cases "add_raw_item source content e")
    case (Inl x)
    then show ?thesis using 1 unfolding a by (cases x) simp
  next
    case (Inr e1)
    then show ?thesis using 1 Cons.IH[of e1] unfolding a by simp
  qed
qed

lemma step_type:
  assumes "engine_inv e" "type_of (item (correlation_map e) k) = Some t"
  shows "type_of (item (correlation_map (step c e)) k) = Some t"
proof (cases c)
  case (Add_raw_data rd)
  then show ?thesis using add_raw_data_type[OF assms(2)] by simp
next
  case (Add_parsed_entities pe)
  then show ?thesis using add_parsed_entities_type[OF assms(2)] by simp
next
  case Correlate
  from correlate_ok[OF assms(1)] obtain r e' where
    c: "correlate e = Inr (r, e')" "same_frame e e'" by blast
  have "type_of (plain (item (correlation_map e') k)) = type_of (plain (item (correlation_map e) k))"
    using c(2) by (simp add: same_frame_def)
  then show ?thesis using Correlate c(1) assms(2) by simp
next
  case (Get_entity_details x)
  then show ?thesis using assms(2) by (simp add: get_entity_details_def)
qed

lemma run_type:
  "engine_inv e \<Longrightarrow> type_of (item (correlation_map e) k) = Some t \<Longrightarrow>
   type_of (item (correlation_map (run cs e)) k) = Some t"
  by (induction cs arbitrary: e) (simp_all add: step_inv step_type)

lemma run_append: "run (xs @ ys) e = run ys (run xs e)"
  by (induction xs arbitrary: e) simp_all

text \<open>
  C8, as the code has it. When an observation is ingested, its key keeps the type it has,
  and a key with no type yet (a new key) takes the type of the observation, whatever
  string that is, the empty string included. A type that a key has after some history of
  calls is the type it has after any longer history.
\<close>

theorem type_first_writer_wins:
  "(ob_value ent = Some v \<and> add_entity source ent (run cs init) = Inr e' \<longrightarrow>
      type_of (item (correlation_map e') (normalize_key v)) =
        (case type_of (item (correlation_map (run cs init)) (normalize_key v)) of
           None \<Rightarrow> ob_type ent
         | Some t0 \<Rightarrow> Some t0)) \<and>
   (type_of (item (correlation_map (run cs init)) k) = Some t \<longrightarrow>
      type_of (item (correlation_map (run (cs @ cs') init)) k) = Some t)"
proof -
  have a: "type_of (item (correlation_map e') (normalize_key v)) =
        (case type_of (item (correlation_map e) (normalize_key v)) of
           None \<Rightarrow> ob_type ent
         | Some t0 \<Rightarrow> Some t0)"
    if "ob_value ent = Some v" "add_entity source ent e = Inr e'" for e
    using that by (auto simp: add_entity_def Let_def split: option.splits entry.splits)
  have b: "type_of (item (correlation_map (run (cs @ cs') init)) k) = Some t"
    if "type_of (item (correlation_map (run cs init)) k) = Some t"
    unfolding run_append using history_inv that by (rule run_type)
  show ?thesis using a b by blast
qed

theorem type_first_writer_wins_witness:
  "ob_value ip_address = Some ''10.0.0.1'' \<and>
   add_entity ''source2'' ip_address (run scenario_b init)
     = Inr (run (scenario_b @ [Add_parsed_entities [(''source2'', [ip_address])]]) init) \<and>
   type_of (item (correlation_map (run scenario_b init)) ''ctf{demo}'') = Some ''CTF_FLAG'' \<and>
   type_of (item (correlation_map
       (run (scenario_b @ [Add_parsed_entities [(''source2'', [ip_address])]]) init))
       (normalize_key ''10.0.0.1'')) = Some ''IP_ADDRESS'' \<and>
   type_of (item (correlation_map
       (run (scenario_b @
          [Add_parsed_entities
             [(''source3'', [\<lparr>ob_value = Some ''ctf{DEMO}'', ob_type = Some ''PERSON'',
                               ob_importance_score = None\<rparr>])],
           Correlate]) init)) ''ctf{demo}'') = Some ''CTF_FLAG''"
proof -
  let ?e' = "run (scenario_b @ [Add_parsed_entities [(''source2'', [ip_address])]]) init"
  have h1: "ob_value ip_address = Some ''10.0.0.1''" by (simp add: ip_address_def)
  have h2: "add_entity ''source2'' ip_address (run scenario_b init) = Inr ?e'" by code_simp
  have h3: "type_of (item (correlation_map (run scenario_b init)) ''ctf{demo}'') = Some ''CTF_FLAG''"
    by code_simp
  have h4: "type_of (item (correlation_map (run scenario_b init)) (normalize_key ''10.0.0.1''))
      = Some ''IP_ADDRESS''" by code_simp
  note t1 = type_first_writer_wins[of ip_address "''10.0.0.1''" "''source2''" scenario_b ?e'
      "''ctf{demo}''" "''CTF_FLAG''"
      "[Add_parsed_entities
             [(''source3'', [\<lparr>ob_value = Some ''ctf{DEMO}'', ob_type = Some ''PERSON'',
                               ob_importance_score = None\<rparr>])],
           Correlate]"]
  have c1: "type_of (item (correlation_map ?e') (normalize_key ''10.0.0.1'')) = Some ''IP_ADDRESS''"
    using t1 h1 h2 h4 by simp
  have c2: "type_of (item (correlation_map
       (run (scenario_b @
          [Add_parsed_entities
             [(''source3'', [\<lparr>ob_value = Some ''ctf{DEMO}'', ob_type = Some ''PERSON'',
                               ob_importance_score = None\<rparr>])],
           Correlate]) init)) ''ctf{demo}'') = Some ''CTF_FLAG''"
    using t1 h3 by blast
  from h1 h2 h3 c1 c2 show ?thesis by (intro conjI)
qed

text \<open>
  Two observations of one key, the first with the empty string as its type, the second
  with the type \<^verbatim>\<open>EMAIL\<close>: the recorded type is the empty string.
\<close>

theorem type_first_writer_wins_counterexample:
  "type_of (item (correlation_map
      (run [Add_parsed_entities
              [(''source1'',
                [\<lparr>ob_value = Some ''admin@example.com'', ob_type = Some [],
                   ob_importance_score = None\<rparr>,
                 admin_email])]] init)) ''admin@example.com'') = Some [] \<and>
   ob_type admin_email = Some ''EMAIL''"
  by code_simp


section \<open>Repeated correlation and the corpus key\<close>

text \<open>
  C1. In scenario B the first \<^verbatim>\<open>correlate\<close> returns one relationship. A second call with
  nothing ingested in between returns the same counts and key lists, and the relationship
  twice: the linking pass appends to \<^verbatim>\<open>self.relationships\<close>, which is never emptied. The
  dict returned first holds that same list object, so read after the second call it shows
  two relationships as well.
\<close>

theorem correlate_twice_differs:
  "correlate (run scenario_b init) = Inr (scenario_b_result, run (scenario_b @ [Correlate]) init) \<and>
   correlate (run (scenario_b @ [Correlate]) init)
     = Inr (scenario_b_result\<lparr>res_relationships := [scenario_b_link, scenario_b_link]\<rparr>,
            run (scenario_b @ [Correlate, Correlate]) init) \<and>
   res_relationships scenario_b_result = [scenario_b_link] \<and>
   scenario_b_result\<lparr>res_relationships := [scenario_b_link, scenario_b_link]\<rparr> \<noteq> scenario_b_result \<and>
   read_later scenario_b_result (run (scenario_b @ [Correlate, Correlate]) init)
     = scenario_b_result\<lparr>res_relationships := [scenario_b_link, scenario_b_link]\<rparr>"
  by code_simp

text \<open>
  C2. The corpus is stored in the map of the entities, under the key \<^verbatim>\<open>raw_data\<close>. After
  \<^verbatim>\<open>add_raw_data\<close>, a lookup of \<^verbatim>\<open>raw_data\<close> returns the corpus record; ingesting an
  observation whose value normalises to \<^verbatim>\<open>raw_data\<close> adds its source to the corpus
  record and then raises KeyError. In the other order the observation is stored, is left
  out of the entities of \<^verbatim>\<open>correlate\<close>, and makes \<^verbatim>\<open>add_raw_data\<close> raise KeyError.
\<close>

theorem raw_data_key_collides:
  "add_raw_data [(''nmap'', ''scan output'')] init = Inr corpus_engine \<and>
   get_entity_details corpus_engine ''raw_data''
     = (Some (Corpus \<lparr>cr_type = Some ''metadata'', cr_sources = {},
                      cr_data = [(''nmap'', ''scan output'')]\<rparr>), corpus_engine) \<and>
   add_parsed_entities [(''nmap'', [raw_data_path])] corpus_engine
     = Inl (KeyError ''importance'',
            \<lparr>correlation_map =
               [(''raw_data'',
                 Corpus \<lparr>cr_type = Some ''metadata'', cr_sources = {''nmap''},
                         cr_data = [(''nmap'', ''scan output'')]\<rparr>)],
             relationships = []\<rparr>) \<and>
   add_parsed_entities [(''nmap'', [raw_data_path])] init
     = Inr (run [Add_parsed_entities [(''nmap'', [raw_data_path])]] init) \<and>
   map fst (correlation_map (run [Add_parsed_entities [(''nmap'', [raw_data_path])]] init))
     = [''raw_data''] \<and>
   entities (run [Add_parsed_entities [(''nmap'', [raw_data_path])]] init) = [] \<and>
   add_raw_data [(''nmap'', ''scan output'')]
       (run [Add_parsed_entities [(''nmap'', [raw_data_path])]] init)
     = Inl (KeyError ''data'', run [Add_parsed_entities [(''nmap'', [raw_data_path])]] init)"
  by code_simp


end
